theory Spec2Isabelle
  imports Main
begin

section \<open>The configuration parser of khal (src/khal/cli.py)\<close>

text \<open>
  A shallow embedding of the schema-driven configuration parser: the classes
  \<open>Section\<close>, \<open>CalendarSection\<close>, \<open>SQLiteSection\<close>, \<open>LocaleSection\<close>,
  \<open>DefaultSection\<close> and \<open>ConfigParser\<close>, the function \<open>validate\<close> and the part of
  \<open>main_khal\<close> that loads the configuration.

  Conventions of the model.
  \<^item> Strings are byte strings (\<open>char list\<close>), as Python 2's \<open>str\<close>; \<open>lower\<close> and the
    \<open>re.I\<close> flag fold the ASCII letters, \<open>strip\<close> removes the six ASCII white-space
    characters.
  \<^item> The state of the \<open>RawConfigParser\<close> after \<open>read\<close> is an ordered list of raw
    sections, each an ordered list of (option, value) pairs. It is threaded through
    the functions that mutate it (\<open>remove_option\<close>). The reader has stored the
    option names through \<open>optionxform\<close>, in lower case, and the options of the section
    \<open>DEFAULT\<close> apart: every section inherits them, \<open>sections()\<close> does not list it.
  \<^item> A raised exception is \<open>Inl\<close> of an \<open>error\<close>; a returned value is \<open>Inr\<close>.
  \<^item> The logger is a list of messages, oldest first; each message keeps the arguments
    of its format string. The debug-level \<open>dump\<close> changes nothing and is left out.
    A run that ends with an exception gives the exception alone, not its log.
  \<^item> What lies outside the repository (the timezone database of pytz, the builtin
    \<open>int\<close>, the path expansion of \<open>os.path\<close>, the cache directory of xdg) is a
    parameter, collected in the record \<open>env\<close>.
\<close>

subsection \<open>Python values, errors, log messages\<close>

datatype pyval = PNone | PBool bool | PInt int | PStr string | PTz string

datatype error =
    NoSectionError string
  | UnknownTimeZoneError string
  | ValueError string
  | AttributeError string
  | KeyError
  | IndexError

datatype logmsg =
    CannotRead string                  \<comment> \<open>error: Cannot read config file\<close>
  | CouldNotParse string string        \<comment> \<open>error: Could not parse config file\<close>
  | MissingOption string string        \<comment> \<open>error: Missing required option (option, section)\<close>
  | InvalidCommand string              \<comment> \<open>error: Invalid value for option default_command\<close>
  | UnknownSection string              \<comment> \<open>warning: Found unknown section\<close>
  | MissingSection string              \<comment> \<open>error: Missing required section (group)\<close>
  | UnknownOption string string        \<comment> \<open>warning: Ignoring unknow option (option, section)\<close>
  | NotValidCalendar pyval             \<comment> \<open>fatal: is not a valid calendar\<close>

datatype level = WARNING | ERROR | CRITICAL

fun level_of :: "logmsg \<Rightarrow> level" where
  "level_of (UnknownSection _) = WARNING"
| "level_of (UnknownOption _ _) = WARNING"
| "level_of (NotValidCalendar _) = CRITICAL"
| "level_of _ = ERROR"

record env =
  pytz_timezone :: "string \<Rightarrow> string option"  \<comment> \<open>\<open>pytz.timezone\<close>; \<open>None\<close>: UnknownTimeZoneError\<close>
  py_int :: "string \<Rightarrow> int option"               \<comment> \<open>builtin \<open>int\<close>; \<open>None\<close>: ValueError\<close>
  expand :: "string \<Rightarrow> string"                   \<comment> \<open>\<open>os.path.expanduser (os.path.expandvars x)\<close>\<close>
  xdg_cache_home :: string

subsection \<open>String primitives\<close>

definition is_space :: "char \<Rightarrow> bool" where
  "is_space c = (c \<in> set [CHR '' '', CHR 0x09, CHR 0x0A, CHR 0x0B, CHR 0x0C, CHR 0x0D])"

definition str_strip :: "string \<Rightarrow> string" where
  "str_strip s = rev (dropWhile is_space (rev (dropWhile is_space s)))"

definition lower_char :: "char \<Rightarrow> char" where
  "lower_char c =
     (case map_of (zip ''ABCDEFGHIJKLMNOPQRSTUVWXYZ'' ''abcdefghijklmnopqrstuvwxyz'') c of
        Some d \<Rightarrow> d
      | None \<Rightarrow> c)"

definition str_lower :: "string \<Rightarrow> string" where
  "str_lower s = map lower_char s"

subsection \<open>The raw configuration (RawConfigParser after read)\<close>

type_synonym raw_section = "string \<times> (string \<times> string) list"

text \<open>\<open>_defaults\<close> are the options of the section \<open>DEFAULT\<close>, \<open>_sections\<close> the other
  sections in the order of the file.\<close>

record conf_parser =
  cp_defaults :: "(string \<times> string) list"
  cp_sections :: "raw_section list"

definition sections :: "conf_parser \<Rightarrow> string list" where
  "sections cp = map fst (cp_sections cp)"

definition optionxform :: "string \<Rightarrow> string" where
  "optionxform option = str_lower option"

text \<open>\<open>get\<close>: the section's own value, else the value of \<open>DEFAULT\<close>. \<open>None\<close> stands for
  NoSectionError or NoOptionError, both of them subclasses of \<open>ConfigParserError\<close>.
  The library reads the section names \<open>DEFAULT\<close> (and, in \<open>remove_option\<close>, the empty
  name) as \<open>_defaults\<close> itself; \<open>sections()\<close> never returns such a name, and the
  program passes no other, so that branch is left out here and in \<open>remove_option\<close>.\<close>

definition cp_get :: "conf_parser \<Rightarrow> string \<Rightarrow> string \<Rightarrow> string option" where
  "cp_get cp section option =
     (case map_of (cp_sections cp) section of
        None \<Rightarrow> None
      | Some opts \<Rightarrow>
          (case map_of opts (optionxform option) of
             Some v \<Rightarrow> Some v
           | None \<Rightarrow> map_of (cp_defaults cp) (optionxform option)))"

text \<open>\<open>remove_option\<close> deletes the section's own entry and leaves \<open>_defaults\<close> as they
  are. \<open>None\<close> stands for NoSectionError.\<close>

definition remove_option :: "conf_parser \<Rightarrow> string \<Rightarrow> string \<Rightarrow> conf_parser option" where
  "remove_option cp section option =
     (case map_of (cp_sections cp) section of
        None \<Rightarrow> None
      | Some _ \<Rightarrow>
          Some (cp\<lparr>cp_sections :=
                  map (\<lambda>(n, opts).
                     if n = section then (n, filter (\<lambda>(k, v). k \<noteq> optionxform option) opts)
                     else (n, opts)) (cp_sections cp)\<rparr>))"

text \<open>The keys of a section's dictionary updated with \<open>_defaults\<close>: its own options,
  then those of \<open>DEFAULT\<close> that it does not set itself.\<close>

definition shown_options :: "(string \<times> string) list \<Rightarrow> (string \<times> string) list \<Rightarrow> string list" where
  "shown_options defaults opts =
     map fst opts @ filter (\<lambda>k. k \<notin> set (map fst opts)) (map fst defaults)"

text \<open>\<open>options\<close>: \<open>None\<close> stands for NoSectionError.\<close>

definition cp_options :: "conf_parser \<Rightarrow> string \<Rightarrow> string list option" where
  "cp_options cp section =
     (case map_of (cp_sections cp) section of
        None \<Rightarrow> None
      | Some opts \<Rightarrow> Some (shown_options (cp_defaults cp) opts))"

subsection \<open>Sections and their schemas\<close>

datatype section_class = DefaultSection | LocaleSection | SQLiteSection | CalendarSection

datatype coercion =
    NoFilter            \<comment> \<open>\<open>None\<close>, replaced by the identity\<close>
  | ParseBoolString
  | ParseTimeZone
  | ParseCommands
  | ExpandPath          \<comment> \<open>\<open>lambda x: os.path.expanduser(os.path.expandvars(x))\<close>\<close>
  | IntFilter           \<comment> \<open>\<open>int\<close>\<close>

type_synonym namespace = "string \<rightharpoonup> pyval"
type_synonym fieldspec = "string \<times> pyval \<times> coercion"

text \<open>An instance of a section class: \<open>_group\<close> and \<open>_schema\<close> are fixed by the class,
  \<open>_parser\<close> is the raw configuration that is threaded through, \<open>_parsed\<close> is kept.\<close>

record section_inst =
  cls :: section_class
  parsed :: namespace

definition new_section :: "section_class \<Rightarrow> section_inst" where
  "new_section c = \<lparr>cls = c, parsed = Map.empty\<rparr>"

fun group :: "section_class \<Rightarrow> string" where
  "group DefaultSection = ''default''"
| "group LocaleSection = ''locale''"
| "group SQLiteSection = ''sqlite''"
| "group CalendarSection = ''calendars''"

fun is_collection :: "section_class \<Rightarrow> bool" where
  "is_collection CalendarSection = True"
| "is_collection _ = False"

fun schema :: "env \<Rightarrow> section_class \<Rightarrow> fieldspec list" where
  "schema e CalendarSection =
     [(''path'', PNone, ExpandPath),
      (''readonly'', PBool False, ParseBoolString),
      (''color'', PStr [], NoFilter)]"
| "schema e SQLiteSection =
     [(''path'', PStr (xdg_cache_home e @ ''/khal/khal.db''), ExpandPath)]"
| "schema e LocaleSection =
     [(''local_timezone'', PNone, ParseTimeZone),
      (''default_timezone'', PNone, ParseTimeZone),
      (''timeformat'', PNone, NoFilter),
      (''dateformat'', PNone, NoFilter),
      (''longdateformat'', PNone, NoFilter),
      (''datetimeformat'', PNone, NoFilter),
      (''longdatetimeformat'', PNone, NoFilter),
      (''firstweekday'', PInt 0, IntFilter),
      (''encoding'', PStr ''utf-8'', NoFilter),
      (''unicode_symbols'', PBool True, ParseBoolString)]"
| "schema e DefaultSection =
     [(''debug'', PBool False, ParseBoolString),
      (''default_command'', PStr ''calendar'', ParseCommands),
      (''default_calendar'', PBool True, NoFilter)]"

text \<open>The pattern \<open>calendar (?P<name>.*)\<close> is matched at the start of the section
  name, ignoring case; \<open>.*\<close> stops at a newline. \<open>calendar_name\<close> is
  \<open>match.group('name')\<close> for a name the pattern matches.\<close>

definition calendar_name :: "string \<Rightarrow> string" where
  "calendar_name name = takeWhile (\<lambda>c. c \<noteq> CHR 0x0A) (drop 9 name)"

text \<open>\<open>matches\<close> returns the answer and the instance, whose \<open>_parsed\<close> the calendar
  matcher extends with the captured name.\<close>

definition matches :: "section_inst \<Rightarrow> string \<Rightarrow> bool \<times> section_inst" where
  "matches sec name =
     (case cls sec of
        CalendarSection \<Rightarrow>
          if str_lower (take 9 name) = ''calendar ''
          then (True, sec\<lparr>parsed := (parsed sec)
                  (''name'' \<mapsto> PStr (calendar_name name))\<rparr>)
          else (False, sec)
      | _ \<Rightarrow> (group (cls sec) = str_lower name, sec))"

subsection \<open>Coercions\<close>

definition parse_bool_string :: "string \<Rightarrow> bool" where
  "parse_bool_string value =
     (let v = str_lower (str_strip value)
      in if v \<in> set [''true'', ''yes'', ''1''] then True else False)"

definition parse_time_zone :: "env \<Rightarrow> string \<Rightarrow> error + pyval" where
  "parse_time_zone e value =
     (case pytz_timezone e value of
        None \<Rightarrow> Inl (UnknownTimeZoneError value)
      | Some z \<Rightarrow> Inr (PTz z))"

definition commands :: "string list" where
  "commands = [''agenda'', ''calendar'', ''new'', ''interactive'', ''printcalendars'']"

definition parse_commands :: "string \<Rightarrow> logmsg list \<times> pyval" where
  "parse_commands command =
     (if command \<notin> set commands then ([InvalidCommand command], PNone)
      else ([], PStr command))"

text \<open>A coercion applied to a raw value: the exception it raises, or the messages it
  logs and the value it returns.\<close>

fun apply_filter :: "env \<Rightarrow> coercion \<Rightarrow> string \<Rightarrow> error + (logmsg list \<times> pyval)" where
  "apply_filter e NoFilter x = Inr ([], PStr x)"
| "apply_filter e ParseBoolString x = Inr ([], PBool (parse_bool_string x))"
| "apply_filter e ParseTimeZone x =
     (case parse_time_zone e x of Inl err \<Rightarrow> Inl err | Inr v \<Rightarrow> Inr ([], v))"
| "apply_filter e ParseCommands x = Inr (parse_commands x)"
| "apply_filter e ExpandPath x = Inr ([], PStr (expand e x))"
| "apply_filter e IntFilter x =
     (case py_int e x of None \<Rightarrow> Inl (ValueError x) | Some i \<Rightarrow> Inr ([], PInt i))"

subsection \<open>Section.parse\<close>

text \<open>The state of the loop over the schema: the raw configuration, the log,
  \<open>_parsed\<close> and \<open>failed\<close>.\<close>

type_synonym pstate = "conf_parser \<times> logmsg list \<times> namespace \<times> bool"

text \<open>The handler \<open>except ConfigParserError\<close>.\<close>

definition on_config_error :: "string \<Rightarrow> fieldspec \<Rightarrow> pstate \<Rightarrow> error + pstate" where
  "on_config_error section fld st =
     (case fld of (option, dflt, filter_) \<Rightarrow>
     (case st of (cp, lg, prs, failed) \<Rightarrow>
        (let lg' = (if dflt = PNone then lg @ [MissingOption option section] else lg);
             failed' = (if dflt = PNone then True else failed);
             prs' = prs(option \<mapsto> dflt)
         in (case remove_option cp section option of
               None \<Rightarrow> Inl (NoSectionError section)
             | Some cp' \<Rightarrow> Inr (cp', lg', prs', failed')))))"

text \<open>One turn of the loop: the \<open>try\<close> block, then the handler.\<close>

definition parse_field :: "env \<Rightarrow> string \<Rightarrow> fieldspec \<Rightarrow> pstate \<Rightarrow> error + pstate" where
  "parse_field e section fld st =
     (case fld of (option, dflt, filter_) \<Rightarrow>
     (case st of (cp, lg, prs, failed) \<Rightarrow>
        (case cp_get cp section option of
           None \<Rightarrow> on_config_error section fld st
         | Some raw \<Rightarrow>
             (case apply_filter e filter_ raw of
                Inl err \<Rightarrow> Inl err
              | Inr (msgs, v) \<Rightarrow>
                  (case remove_option cp section option of
                     None \<Rightarrow>
                       on_config_error section fld (cp, lg @ msgs, prs(option \<mapsto> v), failed)
                   | Some cp' \<Rightarrow> Inr (cp', lg @ msgs, prs(option \<mapsto> v), failed))))))"

fun parse_fields :: "env \<Rightarrow> string \<Rightarrow> fieldspec list \<Rightarrow> pstate \<Rightarrow> error + pstate" where
  "parse_fields e section [] st = Inr st"
| "parse_fields e section (fld # flds) st =
     (case parse_field e section fld st of
        Inl err \<Rightarrow> Inl err
      | Inr st' \<Rightarrow> parse_fields e section flds st')"

text \<open>\<open>Section.parse\<close>. The guard \<open>self._schema is None\<close> holds for no class of the
  registry: each of the four sets its schema.\<close>

definition parse ::
  "env \<Rightarrow> section_inst \<Rightarrow> string \<Rightarrow> conf_parser \<Rightarrow> logmsg list
     \<Rightarrow> error + (conf_parser \<times> logmsg list \<times> namespace option)" where
  "parse e sec section cp lg =
     (case parse_fields e section (schema e (cls sec)) (cp, lg, parsed sec, False) of
        Inl err \<Rightarrow> Inl err
      | Inr (cp', lg', prs, failed) \<Rightarrow>
          Inr (cp', lg', if failed then None else Some prs))"

subsection \<open>ConfigParser\<close>

definition section_classes :: "section_class list" where
  "section_classes = [DefaultSection, LocaleSection, SQLiteSection, CalendarSection]"

definition required_sections :: "section_class list" where
  "required_sections = [DefaultSection, LocaleSection, CalendarSection]"

text \<open>\<open>_get_section_parser\<close>: a fresh instance of each class of the registry, in its
  order; the first that matches owns the section.\<close>

fun first_match :: "section_class list \<Rightarrow> string \<Rightarrow> section_inst option" where
  "first_match [] name = None"
| "first_match (c # cs) name =
     (case matches (new_section c) name of
        (True, parser) \<Rightarrow> Some parser
      | (False, _) \<Rightarrow> first_match cs name)"

definition get_section_parser :: "string \<Rightarrow> section_inst option" where
  "get_section_parser name = first_match section_classes name"

text \<open>An entry of \<open>items\<close>: the Namespace of a section, or the list of a collection.\<close>

datatype item = Single namespace | Collection "namespace list"

type_synonym items = "string \<rightharpoonup> item"

text \<open>The state of the loop of \<open>parse_config\<close>: the raw configuration, the log,
  \<open>items\<close> and \<open>failed\<close>.\<close>

record scan_state =
  st_conf :: conf_parser
  st_log :: "logmsg list"
  st_items :: items
  st_failed :: bool

text \<open>\<open>items[parser.group].append(values)\<close> on an entry that is no list has no
  attribute \<open>append\<close>.\<close>

definition store :: "section_inst \<Rightarrow> namespace \<Rightarrow> items \<Rightarrow> error + items" where
  "store parser values its =
     (let g = group (cls parser) in
      if is_collection (cls parser) then
        (case (case its g of None \<Rightarrow> Some (Collection []) | Some x \<Rightarrow> Some x) of
           Some (Collection l) \<Rightarrow> Inr (its(g \<mapsto> Collection (l @ [values])))
         | _ \<Rightarrow> Inl (AttributeError ''append''))
      else Inr (its(g \<mapsto> Single values)))"

text \<open>The loop over \<open>self._conf_parser.sections()\<close>.\<close>

fun scan :: "env \<Rightarrow> string list \<Rightarrow> scan_state \<Rightarrow> error + scan_state" where
  "scan e [] st = Inr st"
| "scan e (section # rest) st =
     (case get_section_parser section of
        None \<Rightarrow> scan e rest (st\<lparr>st_log := st_log st @ [UnknownSection section]\<rparr>)
      | Some parser \<Rightarrow>
          (case parse e parser section (st_conf st) (st_log st) of
             Inl err \<Rightarrow> Inl err
           | Inr (cp', lg', None) \<Rightarrow>
               scan e rest (st\<lparr>st_conf := cp', st_log := lg', st_failed := True\<rparr>)
           | Inr (cp', lg', Some values) \<Rightarrow>
               (case store parser values (st_items st) of
                  Inl err \<Rightarrow> Inl err
                | Inr its \<Rightarrow> scan e rest (st\<lparr>st_conf := cp', st_log := lg', st_items := its\<rparr>))))"

text \<open>\<open>check_required\<close> returns \<open>failed\<close>, and logs an error for each required group
  that \<open>items\<close> lacks.\<close>

definition check_required :: "items \<Rightarrow> logmsg list \<times> bool" where
  "check_required its =
     (let groupnames = map group required_sections;
          missing = filter (\<lambda>g. its g = None) groupnames
      in (map MissingSection missing, missing \<noteq> []))"

text \<open>\<open>warn_leftovers\<close>: a warning for each option that is still in the raw
  configuration, section by section.\<close>

fun leftovers :: "conf_parser \<Rightarrow> string list \<Rightarrow> error + logmsg list" where
  "leftovers cp [] = Inr []"
| "leftovers cp (section # rest) =
     (case cp_options cp section of
        None \<Rightarrow> Inl (NoSectionError section)
      | Some opts \<Rightarrow>
          (case leftovers cp rest of
             Inl err \<Rightarrow> Inl err
           | Inr lg \<Rightarrow> Inr (map (\<lambda>option. UnknownOption option section) opts @ lg)))"

definition warn_leftovers :: "conf_parser \<Rightarrow> error + logmsg list" where
  "warn_leftovers cp = leftovers cp (sections cp)"

text \<open>What \<open>RawConfigParser.read\<close> did with the file: it read nothing, it raised a
  \<open>ConfigParserError\<close>, or it filled the parser.\<close>

datatype read_result = ReadNothing | ReadError string | ReadOk conf_parser

definition parse_config ::
  "env \<Rightarrow> string \<Rightarrow> read_result \<Rightarrow> error + (logmsg list \<times> items option)" where
  "parse_config e cfile rd =
     (case rd of
        ReadNothing \<Rightarrow> Inr ([CannotRead cfile], None)
      | ReadError err \<Rightarrow> Inr ([CouldNotParse cfile err], None)
      | ReadOk cp \<Rightarrow>
          (case scan e (sections cp)
                  \<lparr>st_conf = cp, st_log = [], st_items = Map.empty, st_failed = False\<rparr> of
             Inl err \<Rightarrow> Inl err
           | Inr st \<Rightarrow>
               (case check_required (st_items st) of
                  (lg1, missing) \<Rightarrow>
                    (let failed = (missing \<or> st_failed st) in
                     (case warn_leftovers (st_conf st) of
                        Inl err \<Rightarrow> Inl err
                      | Inr lg2 \<Rightarrow>
                          Inr (st_log st @ lg1 @ lg2,
                               if failed then None else Some (st_items st)))))))"

subsection \<open>validate and the loading part of main_khal\<close>

text \<open>Python's \<open>==\<close> on the values of the model: \<open>True == 1\<close> and \<open>False == 0\<close>.\<close>

fun py_eq :: "pyval \<Rightarrow> pyval \<Rightarrow> bool" where
  "py_eq (PBool b) (PInt i) = (i = (if b then 1 else 0))"
| "py_eq (PInt i) (PBool b) = (i = (if b then 1 else 0))"
| "py_eq x y = (x = y)"

text \<open>\<open>[cal.name for cal in conf.calendars]\<close>.\<close>

fun names_of :: "namespace list \<Rightarrow> error + pyval list" where
  "names_of [] = Inr []"
| "names_of (cal # cals) =
     (case cal ''name'' of
        None \<Rightarrow> Inl (AttributeError ''name'')
      | Some n \<Rightarrow> (case names_of cals of Inl err \<Rightarrow> Inl err | Inr ns \<Rightarrow> Inr (n # ns)))"

definition validate :: "items option \<Rightarrow> error + (logmsg list \<times> items option)" where
  "validate conf =
     (case conf of
        None \<Rightarrow> Inl (AttributeError ''default'')
      | Some c \<Rightarrow>
     (case c ''default'' of
        None \<Rightarrow> Inl (AttributeError ''default'')
      | Some (Collection _) \<Rightarrow> Inl (AttributeError ''default_calendar'')
      | Some (Single d) \<Rightarrow>
     (case d ''default_calendar'' of
        None \<Rightarrow> Inl (AttributeError ''default_calendar'')
      | Some cal_name \<Rightarrow>
          if cal_name = PBool True then
            (case c ''calendars'' of
               None \<Rightarrow> Inl (AttributeError ''calendars'')
             | Some (Single _) \<Rightarrow> Inl KeyError
             | Some (Collection []) \<Rightarrow> Inl IndexError
             | Some (Collection (cal # _)) \<Rightarrow>
                 (case cal ''name'' of
                    None \<Rightarrow> Inl (AttributeError ''name'')
                  | Some n \<Rightarrow>
                      Inr ([], Some (c(''default'' \<mapsto> Single (d(''default_calendar'' \<mapsto> n)))))))
          else
            (case c ''calendars'' of
               None \<Rightarrow> Inl (AttributeError ''calendars'')
             | Some (Single ns) \<Rightarrow>
                 if ns = Map.empty then Inr ([NotValidCalendar cal_name], None)
                 else Inl (AttributeError ''name'')
             | Some (Collection cals) \<Rightarrow>
                 (case names_of cals of
                    Inl err \<Rightarrow> Inl err
                  | Inr ns \<Rightarrow>
                      if \<not> list_ex (py_eq cal_name) ns
                      then Inr ([NotValidCalendar cal_name], None)
                      else Inr ([], Some c))))))"

text \<open>\<open>main_khal\<close> from \<open>parse_config\<close> to the test \<open>conf is None\<close>: an uncaught
  exception, the exit with \<open>Invalid config file, exiting.\<close>, or the configuration the
  rest of the program uses.\<close>

datatype outcome = Uncaught error | Exit string | Loaded items

definition main_khal_load :: "env \<Rightarrow> string \<Rightarrow> read_result \<Rightarrow> outcome" where
  "main_khal_load e cfile rd =
     (case parse_config e cfile rd of
        Inl err \<Rightarrow> Uncaught err
      | Inr (lg, conf) \<Rightarrow>
          (case validate conf of
             Inl err \<Rightarrow> Uncaught err
           | Inr (lg', None) \<Rightarrow> Exit ''Invalid config file, exiting.''
           | Inr (lg', Some c) \<Rightarrow> Loaded c))"

section \<open>The parser without its state\<close>

text \<open>
  \<open>Section.parse\<close> removes each option it has looked up from the raw configuration.
  The functions of this section compute the same results from the configuration as it
  was read, which no call changes: \<open>field_outcome\<close> is one turn of the loop of
  \<open>Section.parse\<close>, \<open>fields_outcome\<close> the loop, \<open>section_outcome\<close> the call and
  \<open>scan_outcome\<close> the loop of \<open>parse_config\<close>; \<open>consume\<close> and \<open>leftover_conf\<close>
  are the raw configuration the calls leave, \<open>leftover_log\<close> the warnings of
  \<open>warn_leftovers\<close> on it. The lemmas \<open>parse_eq\<close>, \<open>scan_eq\<close> and \<open>parse_config_eq\<close>
  below prove that the code computes just that when no two sections of the raw
  configuration have the same name.
\<close>

definition consume :: "conf_parser \<Rightarrow> string \<Rightarrow> string list \<Rightarrow> conf_parser" where
  "consume cp section options =
     cp\<lparr>cp_sections :=
          map (\<lambda>(n, opts).
             (n, if n = section
                 then filter (\<lambda>(k, v). k \<notin> set (map optionxform options)) opts
                 else opts)) (cp_sections cp)\<rparr>"

definition field_outcome ::
  "env \<Rightarrow> string \<Rightarrow> conf_parser \<Rightarrow> fieldspec \<Rightarrow> error + (logmsg list \<times> pyval \<times> bool)" where
  "field_outcome e section cp fld =
     (case fld of (option, dflt, filter_) \<Rightarrow>
        (case cp_get cp section option of
           None \<Rightarrow>
             Inr (if dflt = PNone then [MissingOption option section] else [], dflt, dflt = PNone)
         | Some raw \<Rightarrow>
             (case apply_filter e filter_ raw of
                Inl err \<Rightarrow> Inl err
              | Inr (msgs, v) \<Rightarrow> Inr (msgs, v, False))))"

fun fields_outcome ::
  "env \<Rightarrow> string \<Rightarrow> conf_parser \<Rightarrow> fieldspec list \<Rightarrow> logmsg list \<times> namespace \<times> bool
     \<Rightarrow> error + (logmsg list \<times> namespace \<times> bool)" where
  "fields_outcome e section cp [] acc = Inr acc"
| "fields_outcome e section cp (fld # flds) acc =
     (case field_outcome e section cp fld of
        Inl err \<Rightarrow> Inl err
      | Inr (msgs, v, miss) \<Rightarrow>
          fields_outcome e section cp flds
            (fst acc @ msgs, (fst (snd acc))(fst fld \<mapsto> v), snd (snd acc) \<or> miss))"

definition section_outcome ::
  "env \<Rightarrow> section_inst \<Rightarrow> string \<Rightarrow> conf_parser \<Rightarrow> error + (logmsg list \<times> namespace option)" where
  "section_outcome e sec section cp =
     (case fields_outcome e section cp (schema e (cls sec)) ([], parsed sec, False) of
        Inl err \<Rightarrow> Inl err
      | Inr (msgs, prs, failed) \<Rightarrow> Inr (msgs, if failed then None else Some prs))"

fun scan_outcome ::
  "env \<Rightarrow> conf_parser \<Rightarrow> string list \<Rightarrow> logmsg list \<times> items \<times> bool
     \<Rightarrow> error + (logmsg list \<times> items \<times> bool)" where
  "scan_outcome e cp [] acc = Inr acc"
| "scan_outcome e cp (section # rest) acc =
     (case get_section_parser section of
        None \<Rightarrow> scan_outcome e cp rest (fst acc @ [UnknownSection section], snd acc)
      | Some parser \<Rightarrow>
          (case section_outcome e parser section cp of
             Inl err \<Rightarrow> Inl err
           | Inr (msgs, None) \<Rightarrow> scan_outcome e cp rest (fst acc @ msgs, fst (snd acc), True)
           | Inr (msgs, Some values) \<Rightarrow>
               (case store parser values (fst (snd acc)) of
                  Inl err \<Rightarrow> Inl err
                | Inr its \<Rightarrow> scan_outcome e cp rest (fst acc @ msgs, its, snd (snd acc)))))"

text \<open>The options that \<open>Section.parse\<close> looks up in a section of this name.\<close>

definition consumed :: "env \<Rightarrow> string \<Rightarrow> string list" where
  "consumed e name =
     (case get_section_parser name of
        None \<Rightarrow> []
      | Some parser \<Rightarrow> map fst (schema e (cls parser)))"

definition leftover_conf :: "env \<Rightarrow> conf_parser \<Rightarrow> string list \<Rightarrow> conf_parser" where
  "leftover_conf e cp names =
     cp\<lparr>cp_sections :=
          map (\<lambda>(n, opts).
             (n, if n \<in> set names
                 then filter (\<lambda>(k, v). k \<notin> set (map optionxform (consumed e n))) opts
                 else opts)) (cp_sections cp)\<rparr>"

definition leftover_log :: "conf_parser \<Rightarrow> logmsg list" where
  "leftover_log cp =
     concat (map (\<lambda>(n, opts).
        map (\<lambda>k. UnknownOption k n) (shown_options (cp_defaults cp) opts)) (cp_sections cp))"

text \<open>The raw configuration without its unknown sections and its unknown options:
  without the sections that match no schema, without the options of a section that its
  schema does not look up, and without the options of \<open>DEFAULT\<close> that no schema looks
  up.\<close>

definition all_consumed :: "env \<Rightarrow> string list" where
  "all_consumed e = concat (map (\<lambda>c. map fst (schema e c)) section_classes)"

definition known :: "env \<Rightarrow> conf_parser \<Rightarrow> conf_parser" where
  "known e cp =
     \<lparr>cp_defaults =
        filter (\<lambda>(k, v). k \<in> set (map optionxform (all_consumed e))) (cp_defaults cp),
      cp_sections =
        map (\<lambda>(n, opts).
           (n, filter (\<lambda>(k, v). k \<in> set (map optionxform (consumed e n))) opts))
          (filter (\<lambda>(n, opts). get_section_parser n \<noteq> None) (cp_sections cp))\<rparr>"

text \<open>The list under \<open>calendars\<close>, and the invariant of \<open>items\<close> in the loop of
  \<open>parse_config\<close>: that entry is a list whenever it exists.\<close>

definition coll :: "items \<Rightarrow> namespace list" where
  "coll its = (case its ''calendars'' of Some (Collection l) \<Rightarrow> l | _ \<Rightarrow> [])"

definition coll_ok :: "items \<Rightarrow> bool" where
  "coll_ok its = (case its ''calendars'' of Some (Single _) \<Rightarrow> False | _ \<Rightarrow> True)"


fun coercion_error :: "error \<Rightarrow> bool" where
  "coercion_error (UnknownTimeZoneError _) = True"
| "coercion_error (ValueError _) = True"
| "coercion_error _ = False"

section \<open>Conditions on an input file\<close>

text \<open>
  The words of the claims about a raw configuration: the schema that owns a section
  name; a file that has a section of a kind; a file in which no coercion raises
  (\<open>all values coercible\<close>); a matched section that lacks a required option, and a file
  in which none does (\<open>all required fields present\<close>); a file whose sections have no
  option twice. A \<open>RawConfigParser\<close> holds its sections, the options of a section and
  the options of \<open>DEFAULT\<close> in dictionaries, so in what it has read no section name and no
  option name occurs twice: \<open>distinct (sections cp)\<close> and \<open>unique_options cp\<close> hold of every
  input.
\<close>

definition section_kind :: "string \<Rightarrow> section_class option" where
  "section_kind name = map_option cls (get_section_parser name)"

definition has_section :: "section_class \<Rightarrow> string list \<Rightarrow> bool" where
  "has_section k names = (\<exists>name\<in>set names. section_kind name = Some k)"

definition raises :: "env \<Rightarrow> coercion \<Rightarrow> string \<Rightarrow> bool" where
  "raises e f raw = (case apply_filter e f raw of Inl _ \<Rightarrow> True | Inr _ \<Rightarrow> False)"

definition coercible :: "env \<Rightarrow> conf_parser \<Rightarrow> bool" where
  "coercible e cp =
     (\<forall>name\<in>set (sections cp).
        case get_section_parser name of
          None \<Rightarrow> True
        | Some p \<Rightarrow>
            (\<forall>fld\<in>set (schema e (cls p)).
               case cp_get cp name (fst fld) of
                 None \<Rightarrow> True
               | Some raw \<Rightarrow> \<not> raises e (snd (snd fld)) raw))"

definition lacks_required :: "env \<Rightarrow> conf_parser \<Rightarrow> string \<Rightarrow> bool" where
  "lacks_required e cp name =
     (case get_section_parser name of
        None \<Rightarrow> False
      | Some p \<Rightarrow>
          (\<exists>fld\<in>set (schema e (cls p)).
             fst (snd fld) = PNone \<and> cp_get cp name (fst fld) = None))"

definition complete :: "env \<Rightarrow> conf_parser \<Rightarrow> bool" where
  "complete e cp = (\<forall>name\<in>set (sections cp). \<not> lacks_required e cp name)"


section \<open>Sample inputs\<close>

text \<open>An environment whose timezone database knows \<open>UTC\<close> only, and whose \<open>int\<close> reads
  \<open>0\<close> and \<open>1\<close>.\<close>

definition env_utc :: env where
  "env_utc = \<lparr>pytz_timezone = (\<lambda>z. if z = ''UTC'' then Some ''UTC'' else None),
              py_int = (\<lambda>s. if s = ''0'' then Some 0 else if s = ''1'' then Some 1 else None),
              expand = (\<lambda>x. x),
              xdg_cache_home = ''/home/user/.cache''\<rparr>"

text \<open>Assembled configurations with the calendars \<open>home\<close> and \<open>work\<close>.\<close>

definition default_unset :: namespace where
  "default_unset = [''default_calendar'' \<mapsto> PBool True]"

definition default_named :: "string \<Rightarrow> namespace" where
  "default_named s = [''default_calendar'' \<mapsto> PStr s]"

definition home_work :: "namespace list" where
  "home_work = [[''name'' \<mapsto> PStr ''home''], [''name'' \<mapsto> PStr ''work'']]"

definition conf_with :: "namespace \<Rightarrow> items" where
  "conf_with d = [''default'' \<mapsto> Single d, ''calendars'' \<mapsto> Collection home_work]"

text \<open>Raw configurations.\<close>

definition home_conf :: conf_parser where
  "home_conf =
     \<lparr>cp_defaults = [],
      cp_sections =
       [(''calendar home'', [(''path'', ''/tmp/cal'')])]\<rparr>"

definition locale_options :: "(string \<times> string) list" where
  "locale_options =
     [(''local_timezone'', ''UTC''), (''default_timezone'', ''UTC''),
      (''timeformat'', ''%H:%M''), (''dateformat'', ''%d.%m.''),
      (''longdateformat'', ''%d.%m.%Y''), (''datetimeformat'', ''%d.%m. %H:%M''),
      (''longdatetimeformat'', ''%d.%m.%Y %H:%M'')]"

definition sample_conf :: conf_parser where
  "sample_conf =
     \<lparr>cp_defaults = [],
      cp_sections =
       [(''default'', [(''default_command'', ''agenda''), (''colour'', ''red'')]),
       (''locale'', locale_options),
       (''calendar home'', [(''path'', ''/tmp/cal'')]),
       (''plugins'', [(''x'', ''1'')]),
       (''Default'', [(''debug'', ''yes'')]),
       (''Calendar work'', [(''path'', ''/tmp/work''), (''readonly'', ''yes'')])]\<rparr>"

definition no_default_conf :: conf_parser where
  "no_default_conf =
     \<lparr>cp_defaults = [],
      cp_sections =
       [(''locale'', locale_options), (''plugins'', [(''x'', ''1'')]),
       (''calendar home'', [])]\<rparr>"

definition bad_command_conf :: conf_parser where
  "bad_command_conf =
     \<lparr>cp_defaults = [],
      cp_sections =
       [(''default'', [(''default_command'', ''foo'')]),
       (''locale'', locale_options),
       (''calendar home'', [(''path'', ''/tmp/cal'')])]\<rparr>"

definition bad_timezone_conf :: conf_parser where
  "bad_timezone_conf =
     \<lparr>cp_defaults = [],
      cp_sections =
       [(''locale'', [(''local_timezone'', ''Nowhere''), (''default_timezone'', ''UTC'')]),
       (''calendar home'', [])]\<rparr>"

definition bad_weekday_conf :: conf_parser where
  "bad_weekday_conf =
     \<lparr>cp_defaults = [],
      cp_sections =
       [(''locale'', locale_options @ [(''firstweekday'', ''monday'')])]\<rparr>"



section \<open>The code and its stateless reading agree\<close>


lemma map_of_section_map:
  "map_of (map (\<lambda>(n, opts). (n, g n opts)) xs) s = map_option (g s) (map_of xs s)"
  by (induction xs) auto

lemma section_map_ident:
  "(\<And>n opts. (n, opts) \<in> set xs \<Longrightarrow> g n opts = opts)
     \<Longrightarrow> map (\<lambda>(n, opts). (n, g n opts)) xs = xs"
  by (induction xs) auto

lemma section_map_cong:
  "(\<And>n opts. (n, opts) \<in> set xs \<Longrightarrow> g n opts = h n opts)
     \<Longrightarrow> map (\<lambda>(n, opts). (n, g n opts)) xs = map (\<lambda>(n, opts). (n, h n opts)) xs"
  by (induction xs) auto

lemma section_map_comp:
  "map (\<lambda>(n, opts). (n, g n opts)) (map (\<lambda>(n, opts). (n, h n opts)) xs) =
     map (\<lambda>(n, opts). (n, g n (h n opts))) xs"
  by (induction xs) auto

lemma map_of_filter_keys:
  "map_of (filter (\<lambda>(k, v). k \<notin> K) opts) k' = (if k' \<in> K then None else map_of opts k')"
  by (induction opts) auto

lemma cp_defaults_consume [simp]: "cp_defaults (consume cp s ks) = cp_defaults cp"
  by (simp add: consume_def)

lemma map_of_consume:
  "map_of (cp_sections (consume cp s ks)) s' =
     (if s' = s
      then map_option (filter (\<lambda>(k, v). k \<notin> set (map optionxform ks))) (map_of (cp_sections cp) s)
      else map_of (cp_sections cp) s')"
  by (cases "s' = s") (simp_all add: consume_def map_of_section_map option.map_ident)

text \<open>Looking up another option, or another section, gives what it gave before the
  removal. The removed option itself is still found when \<open>DEFAULT\<close> sets it.\<close>

lemma cp_get_consume:
  "s' \<noteq> s \<or> optionxform option \<notin> set (map optionxform ks)
     \<Longrightarrow> cp_get (consume cp s ks) s' option = cp_get cp s' option"
  by (auto simp: cp_get_def map_of_consume map_of_filter_keys split: option.splits)

lemma sections_consume [simp]: "sections (consume cp s ks) = sections cp"
  by (auto simp: sections_def consume_def)

lemma map_of_None_sections: "map_of (cp_sections cp) s = None \<longleftrightarrow> s \<notin> set (sections cp)"
  by (simp add: sections_def map_of_eq_None_iff)

lemma remove_option_eq:
  "remove_option cp s option =
     (if s \<in> set (sections cp) then Some (consume cp s [option]) else None)"
proof (cases "map_of (cp_sections cp) s")
  case None
  then show ?thesis using map_of_None_sections [of cp s] by (simp add: remove_option_def)
next
  case (Some opts)
  then have s: "s \<in> set (sections cp)" using map_of_None_sections [of cp s] by auto
  have eq: "(\<lambda>(n, opts). if n = s then (n, filter (\<lambda>(k, v). k \<noteq> optionxform option) opts)
                     else (n, opts)) =
            (\<lambda>(n, opts). (n, if n = s
                     then filter (\<lambda>(k, v). k \<notin> set (map optionxform [option])) opts
                     else opts))"
    by (auto simp: fun_eq_iff)
  show ?thesis unfolding remove_option_def consume_def eq using Some s by simp
qed

lemma consume_Nil [simp]: "consume cp s [] = cp"
proof -
  have "map (\<lambda>(n, opts). (n, if n = s then filter (\<lambda>(k, v). k \<notin> set (map optionxform [])) opts
                            else opts)) (cp_sections cp) = cp_sections cp"
    by (rule section_map_ident) simp
  then show ?thesis by (simp add: consume_def)
qed

lemma consume_consume: "consume (consume cp s ks) s ks' = consume cp s (ks @ ks')"
proof -
  have "map (\<lambda>(n, opts). (n, if n = s then filter (\<lambda>(k, v). k \<notin> set (map optionxform ks')) opts
                            else opts))
          (map (\<lambda>(n, opts). (n, if n = s then filter (\<lambda>(k, v). k \<notin> set (map optionxform ks)) opts
                            else opts)) (cp_sections cp)) =
        map (\<lambda>(n, opts). (n, if n = s
                            then filter (\<lambda>(k, v). k \<notin> set (map optionxform (ks @ ks'))) opts
                            else opts)) (cp_sections cp)"
    unfolding section_map_comp by (rule section_map_cong) (auto intro!: filter_cong)
  then show ?thesis by (simp add: consume_def)
qed

lemma parse_field_eq:
  assumes "s \<in> set (sections cp)"
  shows "parse_field e s fld (cp, lg, prs, fl) =
     (case field_outcome e s cp fld of
        Inl err \<Rightarrow> Inl err
      | Inr (msgs, v, miss) \<Rightarrow>
          Inr (consume cp s [fst fld], lg @ msgs, prs(fst fld \<mapsto> v), fl \<or> miss))"
  using assms
  by (cases fld)
     (auto simp: parse_field_def on_config_error_def field_outcome_def remove_option_eq Let_def
           split: option.splits sum.splits)

lemma fields_outcome_cong:
  "(\<And>fld. fld \<in> set flds \<Longrightarrow> cp_get cp1 s (fst fld) = cp_get cp2 s (fst fld))
     \<Longrightarrow> fields_outcome e s cp1 flds acc = fields_outcome e s cp2 flds acc"
proof (induction flds arbitrary: acc)
  case Nil
  then show ?case by simp
next
  case (Cons fld flds)
  have "field_outcome e s cp1 fld = field_outcome e s cp2 fld"
    using Cons.prems [of fld] by (cases fld) (simp add: field_outcome_def)
  moreover have "\<And>a. fields_outcome e s cp1 flds a = fields_outcome e s cp2 flds a"
    using Cons.IH Cons.prems by simp
  ultimately show ?case by (simp split: sum.splits)
qed

lemma parse_fields_eq:
  assumes "s \<in> set (sections cp)" and "distinct (map (\<lambda>f. optionxform (fst f)) flds)"
  shows "parse_fields e s flds (cp, lg, prs, fl) =
     (case fields_outcome e s cp flds (lg, prs, fl) of
        Inl err \<Rightarrow> Inl err
      | Inr (lg', prs', fl') \<Rightarrow> Inr (consume cp s (map fst flds), lg', prs', fl'))"
  using assms
proof (induction flds arbitrary: cp lg prs fl)
  case Nil
  then show ?case by simp
next
  case (Cons fld flds)
  show ?case
  proof (cases "field_outcome e s cp fld")
    case (Inl err)
    then show ?thesis using Cons.prems by (simp add: parse_field_eq)
  next
    case (Inr r)
    obtain msgs v miss where r: "r = (msgs, v, miss)" by (cases r) auto
    let ?cp1 = "consume cp s [fst fld]"
    have s1: "s \<in> set (sections ?cp1)" using Cons.prems by simp
    have d1: "distinct (map (\<lambda>f. optionxform (fst f)) flds)" using Cons.prems by simp
    have same: "fields_outcome e s ?cp1 flds a = fields_outcome e s cp flds a" for a
    proof (rule fields_outcome_cong)
      fix f assume "f \<in> set flds"
      then have "optionxform (fst f) \<noteq> optionxform (fst fld)"
        using Cons.prems(2) by (auto simp: image_iff)
      then show "cp_get ?cp1 s (fst f) = cp_get cp s (fst f)"
        by (simp add: cp_get_consume)
    qed
    show ?thesis
      using Inr r Cons.prems(1) Cons.IH [OF s1 d1] same
      by (simp add: parse_field_eq consume_consume split: sum.splits)
  qed
qed


lemma schema_distinct: "distinct (map (\<lambda>f. optionxform (fst f)) (schema e c))"
  by (cases c) (simp_all add: optionxform_def str_lower_def lower_char_def)

lemma fields_outcome_log:
  "fields_outcome e s cp flds (lg, prs, fl) =
     (case fields_outcome e s cp flds ([], prs, fl) of
        Inl err \<Rightarrow> Inl err
      | Inr (msgs, prs', fl') \<Rightarrow> Inr (lg @ msgs, prs', fl'))"
proof (induction flds arbitrary: lg prs fl)
  case Nil
  then show ?case by simp
next
  case (Cons fld flds)
  show ?case
  proof (cases "field_outcome e s cp fld")
    case (Inl err)
    then show ?thesis by simp
  next
    case (Inr r)
    obtain msgs v miss where r: "r = (msgs, v, miss)" by (cases r) auto
    define prs1 where "prs1 = prs(fst fld \<mapsto> v)"
    define fl1 where "fl1 = (fl \<or> miss)"
    have a: "fields_outcome e s cp (fld # flds) (lg, prs, fl) =
               fields_outcome e s cp flds (lg @ msgs, prs1, fl1)"
      and b: "fields_outcome e s cp (fld # flds) ([], prs, fl) =
               fields_outcome e s cp flds (msgs, prs1, fl1)"
      using Inr r by (simp_all add: prs1_def fl1_def)
    have c: "fields_outcome e s cp flds (lg @ msgs, prs1, fl1) =
               (case fields_outcome e s cp flds ([], prs1, fl1) of
                  Inl err \<Rightarrow> Inl err
                | Inr (m, prs', fl') \<Rightarrow> Inr ((lg @ msgs) @ m, prs', fl'))"
      by (rule Cons.IH)
    have d: "fields_outcome e s cp flds (msgs, prs1, fl1) =
               (case fields_outcome e s cp flds ([], prs1, fl1) of
                  Inl err \<Rightarrow> Inl err
                | Inr (m, prs', fl') \<Rightarrow> Inr (msgs @ m, prs', fl'))"
      by (rule Cons.IH)
    show ?thesis
      unfolding a b c d
      by (cases "fields_outcome e s cp flds ([], prs1, fl1)") auto
  qed
qed

lemma parse_eq:
  assumes "s \<in> set (sections cp)"
  shows "parse e p s cp lg =
     (case section_outcome e p s cp of
        Inl err \<Rightarrow> Inl err
      | Inr (msgs, r) \<Rightarrow> Inr (consume cp s (map fst (schema e (cls p))), lg @ msgs, r))"
  unfolding parse_def section_outcome_def
    parse_fields_eq [OF assms schema_distinct]
    fields_outcome_log [of e s cp "schema e (cls p)" lg]
  by (simp split: sum.splits)

lemma section_outcome_cong:
  assumes "\<And>option. cp_get cp1 s option = cp_get cp2 s option"
  shows "section_outcome e p s cp1 = section_outcome e p s cp2"
  unfolding section_outcome_def
  using fields_outcome_cong [of "schema e (cls p)" cp1 s cp2 e] assms by simp

lemma scan_outcome_cong:
  "(\<And>name option. name \<in> set names \<Longrightarrow> cp_get cp1 name option = cp_get cp2 name option)
     \<Longrightarrow> scan_outcome e cp1 names acc = scan_outcome e cp2 names acc"
proof (induction names arbitrary: acc)
  case Nil
  then show ?case by simp
next
  case (Cons name names)
  have sec: "section_outcome e p name cp1 = section_outcome e p name cp2" for p
    by (rule section_outcome_cong) (simp add: Cons.prems)
  have rest: "scan_outcome e cp1 names a = scan_outcome e cp2 names a" for a
    by (rule Cons.IH) (simp add: Cons.prems)
  show ?case
    by (simp add: sec rest split: option.splits sum.splits prod.splits)
qed

lemma leftover_conf_Nil [simp]: "leftover_conf e cp [] = cp"
proof -
  have "map (\<lambda>(n, opts). (n, if n \<in> set []
                 then filter (\<lambda>(k, v). k \<notin> set (map optionxform (consumed e n))) opts
                 else opts)) (cp_sections cp) = cp_sections cp"
    by (rule section_map_ident) simp
  then show ?thesis by (simp add: leftover_conf_def)
qed

lemma leftover_conf_unknown:
  "get_section_parser name = None \<Longrightarrow> leftover_conf e cp (name # names) = leftover_conf e cp names"
proof -
  assume "get_section_parser name = None"
  then have "map (\<lambda>(n, opts). (n, if n \<in> set (name # names)
                 then filter (\<lambda>(k, v). k \<notin> set (map optionxform (consumed e n))) opts
                 else opts)) (cp_sections cp) =
             map (\<lambda>(n, opts). (n, if n \<in> set names
                 then filter (\<lambda>(k, v). k \<notin> set (map optionxform (consumed e n))) opts
                 else opts)) (cp_sections cp)"
    by (intro section_map_cong) (auto simp: consumed_def)
  then show ?thesis by (simp add: leftover_conf_def)
qed

lemma leftover_conf_known:
  "get_section_parser name = Some p \<Longrightarrow> name \<notin> set names \<Longrightarrow>
     leftover_conf e (consume cp name (map fst (schema e (cls p)))) names =
     leftover_conf e cp (name # names)"
proof -
  assume p: "get_section_parser name = Some p" and notin: "name \<notin> set names"
  have "map (\<lambda>(n, opts). (n, if n \<in> set names
                 then filter (\<lambda>(k, v). k \<notin> set (map optionxform (consumed e n))) opts
                 else opts))
          (map (\<lambda>(n, opts). (n, if n = name
                 then filter (\<lambda>(k, v). k \<notin> set (map optionxform (map fst (schema e (cls p))))) opts
                 else opts)) (cp_sections cp)) =
        map (\<lambda>(n, opts). (n, if n \<in> set (name # names)
                 then filter (\<lambda>(k, v). k \<notin> set (map optionxform (consumed e n))) opts
                 else opts)) (cp_sections cp)"
    unfolding section_map_comp
    using p notin by (intro section_map_cong) (auto simp: consumed_def image_image)
  then show ?thesis by (simp add: leftover_conf_def consume_def)
qed

lemma scan_eq:
  assumes "distinct names" and "set names \<subseteq> set (sections (st_conf st))"
  shows "scan e names st =
     (case scan_outcome e (st_conf st) names (st_log st, st_items st, st_failed st) of
        Inl err \<Rightarrow> Inl err
      | Inr (lg, its, fl) \<Rightarrow>
          Inr \<lparr>st_conf = leftover_conf e (st_conf st) names, st_log = lg,
               st_items = its, st_failed = fl\<rparr>)"
  using assms
proof (induction names arbitrary: st)
  case Nil
  then show ?case by simp
next
  case (Cons name names)
  have dn: "distinct names" and notin: "name \<notin> set names"
    and here: "name \<in> set (sections (st_conf st))"
    and sub: "set names \<subseteq> set (sections (st_conf st))"
    using Cons.prems by auto
  show ?case
  proof (cases "get_section_parser name")
    case None
    let ?st1 = "st\<lparr>st_log := st_log st @ [UnknownSection name]\<rparr>"
    have "set names \<subseteq> set (sections (st_conf ?st1))" using sub by simp
    from Cons.IH [OF dn this] None show ?thesis
      by (simp add: leftover_conf_unknown split: sum.splits)
  next
    case (Some p)
    let ?cp = "st_conf st"
    let ?cp1 = "consume ?cp name (map fst (schema e (cls p)))"
    have same: "scan_outcome e ?cp1 names a = scan_outcome e ?cp names a" for a
    proof (rule scan_outcome_cong)
      fix n option assume "n \<in> set names"
      then have "n \<noteq> name" using notin by auto
      then show "cp_get ?cp1 n option = cp_get ?cp n option"
        by (simp add: cp_get_consume)
    qed
    show ?thesis
    proof (cases "section_outcome e p name ?cp")
      case (Inl err)
      then show ?thesis using Some here by (simp add: parse_eq)
    next
      case (Inr r)
      obtain msgs v where r: "r = (msgs, v)" by (cases r) auto
      show ?thesis
      proof (cases v)
        case None
        let ?st1 = "st\<lparr>st_conf := ?cp1, st_log := st_log st @ msgs, st_failed := True\<rparr>"
        have "set names \<subseteq> set (sections (st_conf ?st1))" using sub by simp
        from Cons.IH [OF dn this] Some Inr r None here show ?thesis
          by (simp add: parse_eq same leftover_conf_known [OF Some notin] split: sum.splits)
      next
        case (Some vals)
        show ?thesis
        proof (cases "store p vals (st_items st)")
          case (Inl err)
          then show ?thesis
            using \<open>get_section_parser name = Some p\<close> Inr r Some here by (simp add: parse_eq)
        next
          case (Inr its)
          let ?st1 = "st\<lparr>st_conf := ?cp1, st_log := st_log st @ msgs, st_items := its\<rparr>"
          have "set names \<subseteq> set (sections (st_conf ?st1))" using sub by simp
          from Cons.IH [OF dn this] \<open>get_section_parser name = Some p\<close>
            \<open>section_outcome e p name ?cp = Inr r\<close> r Some Inr here
          show ?thesis
            by (simp add: parse_eq same
                leftover_conf_known [OF \<open>get_section_parser name = Some p\<close> notin]
                split: sum.splits)
        qed
      qed
    qed
  qed
qed

lemma get_section_parser_eq:
  "get_section_parser name =
     (if str_lower name = ''default'' then Some (new_section DefaultSection)
      else if str_lower name = ''locale'' then Some (new_section LocaleSection)
      else if str_lower name = ''sqlite'' then Some (new_section SQLiteSection)
      else if str_lower (take 9 name) = ''calendar ''
      then Some \<lparr>cls = CalendarSection,
                 parsed = [''name'' \<mapsto> PStr (calendar_name name)]\<rparr>
      else None)"
  by (simp add: get_section_parser_def section_classes_def matches_def new_section_def
      calendar_name_def eq_commute [of "str_lower name"])

lemma parser_calendar:
  "get_section_parser name = Some p \<Longrightarrow> cls p = CalendarSection \<Longrightarrow>
     parsed p ''name'' = Some (PStr (calendar_name name))"
  by (auto simp: get_section_parser_eq new_section_def split: if_splits)

lemma parser_single:
  "get_section_parser name = Some p \<Longrightarrow> cls p \<noteq> CalendarSection \<Longrightarrow>
     p = new_section (cls p) \<and> str_lower name = group (cls p)"
  by (auto simp: get_section_parser_eq new_section_def split: if_splits)

lemma leftovers_general:
  "distinct (map fst xs) \<Longrightarrow>
   (\<And>n. n \<in> set (map fst xs) \<Longrightarrow> map_of (cp_sections cp) n = map_of xs n)
     \<Longrightarrow> leftovers cp (map fst xs) =
         Inr (concat (map (\<lambda>(n, opts).
                map (\<lambda>k. UnknownOption k n) (shown_options (cp_defaults cp) opts)) xs))"
proof (induction xs)
  case Nil
  then show ?case by simp
next
  case (Cons x xs)
  obtain n opts where x: "x = (n, opts)" by (cases x)
  have here: "cp_options cp n = Some (shown_options (cp_defaults cp) opts)"
    using Cons.prems(2) [of n] x by (simp add: cp_options_def)
  have "leftovers cp (map fst xs) =
          Inr (concat (map (\<lambda>(n, opts).
                map (\<lambda>k. UnknownOption k n) (shown_options (cp_defaults cp) opts)) xs))"
  proof (rule Cons.IH)
    show "distinct (map fst xs)" using Cons.prems(1) by simp
    fix m assume m: "m \<in> set (map fst xs)"
    then have "m \<noteq> n" using Cons.prems(1) x by auto
    then show "map_of (cp_sections cp) m = map_of xs m" using Cons.prems(2) [of m] m x by simp
  qed
  then show ?case using here x by simp
qed

lemma warn_leftovers_eq:
  "distinct (sections cp) \<Longrightarrow> warn_leftovers cp = Inr (leftover_log cp)"
  unfolding warn_leftovers_def sections_def leftover_log_def by (rule leftovers_general) simp_all

lemma sections_leftover_conf [simp]: "sections (leftover_conf e cp names) = sections cp"
  by (auto simp: leftover_conf_def sections_def)

lemma cp_defaults_leftover_conf [simp]:
  "cp_defaults (leftover_conf e cp names) = cp_defaults cp"
  by (simp add: leftover_conf_def)

lemma parse_config_eq:
  assumes "distinct (sections cp)"
  shows "parse_config e cfile (ReadOk cp) =
     (case scan_outcome e cp (sections cp) ([], Map.empty, False) of
        Inl err \<Rightarrow> Inl err
      | Inr (lg, its, fl) \<Rightarrow>
          Inr (lg @ fst (check_required its) @ leftover_log (leftover_conf e cp (sections cp)),
               if snd (check_required its) \<or> fl then None else Some its))"
proof -
  let ?st = "\<lparr>st_conf = cp, st_log = [], st_items = Map.empty, st_failed = False\<rparr>"
  have "scan e (sections cp) ?st =
     (case scan_outcome e cp (sections cp) ([], Map.empty, False) of
        Inl err \<Rightarrow> Inl err
      | Inr (lg, its, fl) \<Rightarrow>
          Inr \<lparr>st_conf = leftover_conf e cp (sections cp), st_log = lg,
               st_items = its, st_failed = fl\<rparr>)"
    using scan_eq [of "sections cp" ?st e] assms by (simp split: sum.splits)
  then show ?thesis
    using assms
    by (simp add: parse_config_def warn_leftovers_eq Let_def
        split: sum.splits prod.splits)
qed

section \<open>Properties of the stateless reading\<close>

lemma field_outcome_absent:
  "cp_get cp s option = None \<Longrightarrow>
     field_outcome e s cp (option, dflt, flt) =
       Inr (if dflt = PNone then [MissingOption option s] else [], dflt, dflt = PNone)"
  by (simp add: field_outcome_def)

lemma field_outcome_present:
  "cp_get cp s option = Some raw \<Longrightarrow>
     field_outcome e s cp (option, dflt, flt) =
       (case apply_filter e flt raw of
          Inl err \<Rightarrow> Inl err
        | Inr (msgs, v) \<Rightarrow> Inr (msgs, v, False))"
  by (simp add: field_outcome_def)

lemma field_outcome_miss:
  "field_outcome e s cp fld = Inr (msgs, v, miss) \<Longrightarrow>
     miss = (fst (snd fld) = PNone \<and> cp_get cp s (fst fld) = None)"
  by (cases fld) (auto simp: field_outcome_def split: option.splits sum.splits)



lemma fields_outcome_total:
  "(\<And>fld. fld \<in> set flds \<Longrightarrow> \<exists>r. field_outcome e s cp fld = Inr r)
     \<Longrightarrow> \<exists>r. fields_outcome e s cp flds acc = Inr r"
proof (induction flds arbitrary: acc)
  case Nil
  then show ?case by (cases acc) auto
next
  case (Cons fld flds)
  obtain r where r: "field_outcome e s cp fld = Inr r" using Cons.prems [of fld] by auto
  have "\<And>a. \<exists>r. fields_outcome e s cp flds a = Inr r"
    using Cons.IH Cons.prems by simp
  then show ?case using r by (simp split: prod.splits)
qed

lemma fields_outcome_raise:
  "fld \<in> set flds \<Longrightarrow> field_outcome e s cp fld = Inl err
     \<Longrightarrow> \<exists>err'. fields_outcome e s cp flds acc = Inl err'"
proof (induction flds arbitrary: acc)
  case Nil
  then show ?case by simp
next
  case (Cons f flds)
  show ?case
  proof (cases "field_outcome e s cp f")
    case (Inl a)
    then show ?thesis by simp
  next
    case (Inr r)
    then have "fld \<in> set flds" using Cons.prems by auto
    then have "\<And>a. \<exists>err'. fields_outcome e s cp flds a = Inl err'"
      using Cons.IH Cons.prems(2) by simp
    then show ?thesis using Inr by (simp split: prod.splits)
  qed
qed

lemma fields_outcome_failed:
  "fields_outcome e s cp flds (lg, prs, fl) = Inr (lg', prs', fl') \<Longrightarrow>
     fl' = (fl \<or> (\<exists>fld\<in>set flds. fst (snd fld) = PNone \<and> cp_get cp s (fst fld) = None))"
proof (induction flds arbitrary: lg prs fl)
  case Nil
  then show ?case by simp
next
  case (Cons fld flds)
  from Cons.prems obtain msgs v miss where
    f: "field_outcome e s cp fld = Inr (msgs, v, miss)" and
    rest: "fields_outcome e s cp flds (lg @ msgs, prs(fst fld \<mapsto> v), fl \<or> miss) = Inr (lg', prs', fl')"
    by (auto split: sum.splits)
  from Cons.IH [OF rest] field_outcome_miss [OF f] show ?case by auto
qed

lemma fields_outcome_other:
  "fields_outcome e s cp flds (lg, prs, fl) = Inr (lg', prs', fl') \<Longrightarrow>
     k \<notin> fst ` set flds \<Longrightarrow> prs' k = prs k"
proof (induction flds arbitrary: lg prs fl)
  case Nil
  then show ?case by simp
next
  case (Cons fld flds)
  from Cons.prems(1) obtain msgs v miss where
    f: "field_outcome e s cp fld = Inr (msgs, v, miss)" and
    rest: "fields_outcome e s cp flds (lg @ msgs, prs(fst fld \<mapsto> v), fl \<or> miss) = Inr (lg', prs', fl')"
    by (auto split: sum.splits)
  from Cons.IH [OF rest] Cons.prems(2) show ?case by auto
qed

lemma fields_outcome_value:
  "fields_outcome e s cp flds (lg, prs, fl) = Inr (lg', prs', fl') \<Longrightarrow>
     distinct (map fst flds) \<Longrightarrow> fld \<in> set flds \<Longrightarrow>
     \<exists>msgs v miss. field_outcome e s cp fld = Inr (msgs, v, miss) \<and> prs' (fst fld) = Some v"
proof (induction flds arbitrary: lg prs fl)
  case Nil
  then show ?case by simp
next
  case (Cons f flds)
  from Cons.prems(1) obtain msgs v miss where
    f: "field_outcome e s cp f = Inr (msgs, v, miss)" and
    rest: "fields_outcome e s cp flds (lg @ msgs, prs(fst f \<mapsto> v), fl \<or> miss) = Inr (lg', prs', fl')"
    by (auto split: sum.splits)
  show ?case
  proof (cases "fld = f")
    case True
    have "fst f \<notin> fst ` set flds" using Cons.prems(2) by auto
    from fields_outcome_other [OF rest this] f True show ?thesis by simp
  next
    case False
    then have "fld \<in> set flds" using Cons.prems(3) by simp
    moreover have "distinct (map fst flds)" using Cons.prems(2) by simp
    ultimately show ?thesis using Cons.IH [OF rest] by blast
  qed
qed


lemma schema_names_distinct: "distinct (map fst (schema e c))"
  by (cases c) simp_all

lemma group_not_calendars: "c \<noteq> CalendarSection \<Longrightarrow> group c \<noteq> ''calendars''"
  by (cases c) simp_all

lemma group_inj: "group c = group c' \<Longrightarrow> c = c'"
  by (cases c; cases c') simp_all

lemma is_collection_iff: "is_collection c \<longleftrightarrow> c = CalendarSection"
  by (cases c) simp_all

lemma store_eq:
  assumes "coll_ok its"
  shows "store p v its =
     Inr (its(group (cls p) \<mapsto>
            (if is_collection (cls p) then Collection (coll its @ [v]) else Single v)))"
  using assms
  by (cases "cls p")
     (auto simp: store_def coll_def coll_ok_def Let_def split: option.splits item.splits)

lemma coll_ok_store:
  "coll_ok its \<Longrightarrow>
     coll_ok (its(group c \<mapsto> (if is_collection c then Collection l else Single v)))"
  by (cases c) (auto simp: coll_ok_def)

lemma scan_outcome_step:
  assumes "scan_outcome e cp (n # ns) (lg, its, fl) = Inr r" and "coll_ok its"
  shows "\<exists>lg1 its1 fl1.
     scan_outcome e cp ns (lg1, its1, fl1) = Inr r \<and> coll_ok its1 \<and>
     ((get_section_parser n = None \<and> lg1 = lg @ [UnknownSection n] \<and> its1 = its \<and> fl1 = fl) \<or>
      (\<exists>p msgs. get_section_parser n = Some p \<and> section_outcome e p n cp = Inr (msgs, None) \<and>
         lg1 = lg @ msgs \<and> its1 = its \<and> fl1) \<or>
      (\<exists>p msgs v. get_section_parser n = Some p \<and>
         section_outcome e p n cp = Inr (msgs, Some v) \<and> lg1 = lg @ msgs \<and>
         its1 = its(group (cls p) \<mapsto>
                  (if is_collection (cls p) then Collection (coll its @ [v]) else Single v)) \<and>
         fl1 = fl))"
proof (cases "get_section_parser n")
  case None
  then show ?thesis using assms by auto
next
  case (Some p)
  show ?thesis
  proof (cases "section_outcome e p n cp")
    case (Inl err)
    then show ?thesis using assms Some by simp
  next
    case (Inr q)
    obtain msgs v where q: "q = (msgs, v)" by (cases q) auto
    show ?thesis
    proof (cases v)
      case None
      then show ?thesis using assms Some Inr q by auto
    next
      case (Some vals)
      then show ?thesis
        using assms \<open>get_section_parser n = Some p\<close> Inr q coll_ok_store [OF assms(2)]
        by (auto simp: store_eq)
    qed
  qed
qed

lemma scan_outcome_total:
  "coll_ok its \<Longrightarrow>
   (\<And>name p. name \<in> set names \<Longrightarrow> get_section_parser name = Some p
       \<Longrightarrow> \<exists>r. section_outcome e p name cp = Inr r)
     \<Longrightarrow> \<exists>r. scan_outcome e cp names (lg, its, fl) = Inr r"
proof (induction names arbitrary: lg its fl)
  case Nil
  then show ?case by simp
next
  case (Cons n ns)
  have rest: "\<exists>r. scan_outcome e cp ns (lg1, its1, fl1) = Inr r" if "coll_ok its1"
    for lg1 its1 fl1
    using Cons.IH [OF that] Cons.prems(2) by simp
  show ?case
  proof (cases "get_section_parser n")
    case None
    then show ?thesis using rest [OF Cons.prems(1)] by simp
  next
    case (Some p)
    obtain msgs v where q: "section_outcome e p n cp = Inr (msgs, v)"
      using Cons.prems(2) [of n p] Some by auto
    show ?thesis
    proof (cases v)
      case None
      then show ?thesis using Some q rest [OF Cons.prems(1)] by simp
    next
      case (Some vals)
      then show ?thesis
        using \<open>get_section_parser n = Some p\<close> q
          rest [OF coll_ok_store [OF Cons.prems(1)]]
        by (simp add: store_eq [OF Cons.prems(1)])
    qed
  qed
qed

lemma scan_outcome_raise:
  "name \<in> set names \<Longrightarrow> get_section_parser name = Some p \<Longrightarrow>
   section_outcome e p name cp = Inl err
     \<Longrightarrow> \<exists>err'. scan_outcome e cp names acc = Inl err'"
proof (induction names arbitrary: acc)
  case Nil
  then show ?case by simp
next
  case (Cons n ns)
  show ?case
  proof (cases "n = name")
    case True
    then show ?thesis using Cons.prems by simp
  next
    case False
    then have "name \<in> set ns" using Cons.prems(1) by simp
    then have "\<And>a. \<exists>err'. scan_outcome e cp ns a = Inl err'"
      using Cons.IH Cons.prems by simp
    then show ?thesis
      by (simp split: option.splits sum.splits prod.splits)
  qed
qed

lemma scan_outcome_failed:
  "scan_outcome e cp names (lg, its, fl) = Inr (lg', its', fl') \<Longrightarrow> coll_ok its \<Longrightarrow>
     fl' = (fl \<or> (\<exists>name\<in>set names. \<exists>p msgs. get_section_parser name = Some p \<and>
                    section_outcome e p name cp = Inr (msgs, None)))"
proof (induction names arbitrary: lg its fl)
  case Nil
  then show ?case by simp
next
  case (Cons n ns)
  from scan_outcome_step [OF Cons.prems] obtain lg1 its1 fl1 where
    rest: "scan_outcome e cp ns (lg1, its1, fl1) = Inr (lg', its', fl')" and ok: "coll_ok its1" and
    step: "(get_section_parser n = None \<and> lg1 = lg @ [UnknownSection n] \<and> its1 = its \<and> fl1 = fl) \<or>
      (\<exists>p msgs. get_section_parser n = Some p \<and> section_outcome e p n cp = Inr (msgs, None) \<and>
         lg1 = lg @ msgs \<and> its1 = its \<and> fl1) \<or>
      (\<exists>p msgs v. get_section_parser n = Some p \<and>
         section_outcome e p n cp = Inr (msgs, Some v) \<and> lg1 = lg @ msgs \<and>
         its1 = its(group (cls p) \<mapsto>
                  (if is_collection (cls p) then Collection (coll its @ [v]) else Single v)) \<and>
         fl1 = fl)"
    by blast
  from Cons.IH [OF rest ok] step show ?case by auto
qed

lemma scan_outcome_items_other:
  "scan_outcome e cp names (lg, its, fl) = Inr (lg', its', fl') \<Longrightarrow> coll_ok its \<Longrightarrow>
   (\<And>name p. name \<in> set names \<Longrightarrow> get_section_parser name = Some p \<Longrightarrow> group (cls p) \<noteq> g)
     \<Longrightarrow> its' g = its g"
proof (induction names arbitrary: lg its fl)
  case Nil
  then show ?case by simp
next
  case (Cons n ns)
  from scan_outcome_step [OF Cons.prems(1,2)] obtain lg1 its1 fl1 where
    rest: "scan_outcome e cp ns (lg1, its1, fl1) = Inr (lg', its', fl')" and ok: "coll_ok its1" and
    step: "(get_section_parser n = None \<and> lg1 = lg @ [UnknownSection n] \<and> its1 = its \<and> fl1 = fl) \<or>
      (\<exists>p msgs. get_section_parser n = Some p \<and> section_outcome e p n cp = Inr (msgs, None) \<and>
         lg1 = lg @ msgs \<and> its1 = its \<and> fl1) \<or>
      (\<exists>p msgs v. get_section_parser n = Some p \<and>
         section_outcome e p n cp = Inr (msgs, Some v) \<and> lg1 = lg @ msgs \<and>
         its1 = its(group (cls p) \<mapsto>
                  (if is_collection (cls p) then Collection (coll its @ [v]) else Single v)) \<and>
         fl1 = fl)"
    by blast
  have "its' g = its1 g"
  proof (rule Cons.IH [OF rest ok])
    fix name p assume "name \<in> set ns" "get_section_parser name = Some p"
    then show "group (cls p) \<noteq> g" using Cons.prems(3) [of name p] by simp
  qed
  moreover have "its1 g = its g"
    using step Cons.prems(3) [of n] by auto
  ultimately show ?case by simp
qed



section \<open>When parse_config returns, and what\<close>

lemma field_outcome_coercible:
  assumes "case cp_get cp name (fst fld) of None \<Rightarrow> True | Some raw \<Rightarrow> \<not> raises e (snd (snd fld)) raw"
  shows "\<exists>r. field_outcome e name cp fld = Inr r"
  using assms
  by (cases fld) (auto simp: field_outcome_def raises_def split: option.splits sum.splits)

lemma section_outcome_coercible:
  assumes "coercible e cp" and "name \<in> set (sections cp)" and "get_section_parser name = Some p"
  shows "\<exists>r. section_outcome e p name cp = Inr r"
proof -
  have "\<exists>r. field_outcome e name cp fld = Inr r" if "fld \<in> set (schema e (cls p))" for fld
    using assms that by (intro field_outcome_coercible) (auto simp: coercible_def)
  from fields_outcome_total [of "schema e (cls p)" e name cp "([], parsed p, False)", OF this]
  show ?thesis by (auto simp: section_outcome_def split: prod.splits)
qed

lemma section_outcome_None:
  assumes "section_outcome e p name cp = Inr (msgs, v)" and "get_section_parser name = Some p"
  shows "v = None \<longleftrightarrow> lacks_required e cp name"
proof -
  from assms(1) obtain prs fl where
    f: "fields_outcome e name cp (schema e (cls p)) ([], parsed p, False) = Inr (msgs, prs, fl)"
    and v: "v = (if fl then None else Some prs)"
    by (auto simp: section_outcome_def split: sum.splits)
  from fields_outcome_failed [OF f] v assms(2) show ?thesis
    by (auto simp: lacks_required_def)
qed

lemma scan_outcome_present:
  "scan_outcome e cp names (lg, its, fl) = Inr (lg', its', fl') \<Longrightarrow> coll_ok its \<Longrightarrow> \<not> fl' \<Longrightarrow>
   its (group k) \<noteq> None \<or> has_section k names \<Longrightarrow> its' (group k) \<noteq> None"
proof (induction names arbitrary: lg its fl)
  case Nil
  then show ?case by (simp add: has_section_def)
next
  case (Cons n ns)
  from scan_outcome_step [OF Cons.prems(1,2)] obtain lg1 its1 fl1 where
    rest: "scan_outcome e cp ns (lg1, its1, fl1) = Inr (lg', its', fl')" and ok: "coll_ok its1" and
    step: "(get_section_parser n = None \<and> lg1 = lg @ [UnknownSection n] \<and> its1 = its \<and> fl1 = fl) \<or>
      (\<exists>p msgs. get_section_parser n = Some p \<and> section_outcome e p n cp = Inr (msgs, None) \<and>
         lg1 = lg @ msgs \<and> its1 = its \<and> fl1) \<or>
      (\<exists>p msgs v. get_section_parser n = Some p \<and>
         section_outcome e p n cp = Inr (msgs, Some v) \<and> lg1 = lg @ msgs \<and>
         its1 = its(group (cls p) \<mapsto>
                  (if is_collection (cls p) then Collection (coll its @ [v]) else Single v)) \<and>
         fl1 = fl)"
    by blast
  have nf: "\<not> fl1" using scan_outcome_failed [OF rest ok] Cons.prems(3) by simp
  have "its1 (group k) \<noteq> None \<or> has_section k ns"
    using step nf Cons.prems(4) by (auto simp: has_section_def section_kind_def)
  from Cons.IH [OF rest ok Cons.prems(3) this] show ?case .
qed

lemma scan_outcome_absent:
  assumes "scan_outcome e cp names (lg, its, fl) = Inr (lg', its', fl')" and "coll_ok its"
    and "\<not> has_section k names"
  shows "its' (group k) = its (group k)"
proof (rule scan_outcome_items_other [OF assms(1,2)])
  fix name p assume "name \<in> set names" "get_section_parser name = Some p"
  then have "cls p \<noteq> k" using assms(3) by (auto simp: has_section_def section_kind_def)
  then show "group (cls p) \<noteq> group k" using group_inj by blast
qed

lemma coll_ok_empty [simp]: "coll_ok Map.empty"
  by (simp add: coll_ok_def)

lemma check_required_missing:
  "snd (check_required its) \<longleftrightarrow>
     its ''default'' = None \<or> its ''locale'' = None \<or> its ''calendars'' = None"
  by (auto simp: check_required_def required_sections_def Let_def)

lemma scan_outcome_coercible:
  assumes "coercible e cp" and "set names \<subseteq> set (sections cp)" and "coll_ok its"
  shows "\<exists>lg' its' fl'. scan_outcome e cp names (lg, its, fl) = Inr (lg', its', fl')"
proof -
  have "\<exists>r. scan_outcome e cp names (lg, its, fl) = Inr r"
  proof (rule scan_outcome_total [OF assms(3)])
    fix name p assume "name \<in> set names" "get_section_parser name = Some p"
    then show "\<exists>r. section_outcome e p name cp = Inr r"
      using section_outcome_coercible [OF assms(1), of name p] assms(2) by blast
  qed
  then show ?thesis by auto
qed

lemma scan_outcome_flag:
  assumes "scan_outcome e cp names (lg, its, fl) = Inr (lg', its', fl')" and "coll_ok its"
  shows "fl' \<longleftrightarrow> fl \<or> (\<exists>name\<in>set names. lacks_required e cp name)"
proof -
  have "(\<exists>name\<in>set names. \<exists>p msgs. get_section_parser name = Some p \<and>
            section_outcome e p name cp = Inr (msgs, None))
        \<longleftrightarrow> (\<exists>name\<in>set names. lacks_required e cp name)"
  proof
    assume "\<exists>name\<in>set names. \<exists>p msgs. get_section_parser name = Some p \<and>
            section_outcome e p name cp = Inr (msgs, None)"
    then show "\<exists>name\<in>set names. lacks_required e cp name"
      using section_outcome_None by blast
  next
    assume "\<exists>name\<in>set names. lacks_required e cp name"
    then obtain name where n: "name \<in> set names" and l: "lacks_required e cp name" by blast
    then obtain p where p: "get_section_parser name = Some p"
      by (auto simp: lacks_required_def split: option.splits)
    show "\<exists>name\<in>set names. \<exists>p msgs. get_section_parser name = Some p \<and>
            section_outcome e p name cp = Inr (msgs, None)"
    proof (cases "section_outcome e p name cp")
      case (Inl err)
      from scan_outcome_raise [OF n p Inl, of "(lg, its, fl)"] assms(1) show ?thesis by auto
    next
      case (Inr r)
      obtain msgs v where "r = (msgs, v)" by (cases r) auto
      with Inr section_outcome_None [of e p name cp msgs v] p l n show ?thesis by auto
    qed
  qed
  with scan_outcome_failed [OF assms] show ?thesis by simp
qed

text \<open>What \<open>parse_config\<close> returns when no coercion raises.\<close>

lemma parse_config_result:
  assumes "distinct (sections cp)" and "coercible e cp"
  shows "\<exists>lg its.
     scan_outcome e cp (sections cp) ([], Map.empty, False) =
       Inr (lg, its, \<not> complete e cp) \<and>
     parse_config e cfile (ReadOk cp) =
       Inr (lg @ fst (check_required its) @ leftover_log (leftover_conf e cp (sections cp)),
            if complete e cp \<and> has_section DefaultSection (sections cp) \<and>
               has_section LocaleSection (sections cp) \<and>
               has_section CalendarSection (sections cp)
            then Some its else None)"
proof -
  obtain lg its fl where
    sc: "scan_outcome e cp (sections cp) ([], Map.empty, False) = Inr (lg, its, fl)"
    using scan_outcome_coercible [OF assms(2), of "sections cp" Map.empty "[]" False] by auto
  have fl: "fl \<longleftrightarrow> \<not> complete e cp"
    using scan_outcome_flag [OF sc] by (simp add: complete_def)
  have grp: "its (group k) = None \<longleftrightarrow> \<not> has_section k (sections cp)" if "\<not> fl" for k
    using scan_outcome_present [OF sc _ that, of k] scan_outcome_absent [OF sc, of k]
    by auto
  have "snd (check_required its) \<or> fl \<longleftrightarrow>
        \<not> (complete e cp \<and> has_section DefaultSection (sections cp) \<and>
           has_section LocaleSection (sections cp) \<and> has_section CalendarSection (sections cp))"
    using fl grp [of DefaultSection] grp [of LocaleSection] grp [of CalendarSection]
    by (auto simp: check_required_missing)
  then show ?thesis
    using sc fl by (auto simp: parse_config_eq [OF assms(1)])
qed

section \<open>Boolean coercion\<close>

text \<open>\<open>str_lower\<close> on the three words, letter by letter, and \<open>str_strip\<close> as trimming: it
  removes white space at both ends and nothing else.\<close>

lemma lower_char_cases:
  "lower_char c = CHR ''t'' \<longleftrightarrow> c \<in> {CHR ''t'', CHR ''T''}"
  "lower_char c = CHR ''r'' \<longleftrightarrow> c \<in> {CHR ''r'', CHR ''R''}"
  "lower_char c = CHR ''u'' \<longleftrightarrow> c \<in> {CHR ''u'', CHR ''U''}"
  "lower_char c = CHR ''e'' \<longleftrightarrow> c \<in> {CHR ''e'', CHR ''E''}"
  "lower_char c = CHR ''y'' \<longleftrightarrow> c \<in> {CHR ''y'', CHR ''Y''}"
  "lower_char c = CHR ''s'' \<longleftrightarrow> c \<in> {CHR ''s'', CHR ''S''}"
  "lower_char c = CHR ''1'' \<longleftrightarrow> c = CHR ''1''"
  by (simp_all add: lower_char_def)


lemma str_lower_true:
  "str_lower w = ''true'' \<longleftrightarrow>
     (\<exists>a b c d. w = [a, b, c, d] \<and> a \<in> {CHR ''t'', CHR ''T''} \<and> b \<in> {CHR ''r'', CHR ''R''} \<and>
        c \<in> {CHR ''u'', CHR ''U''} \<and> d \<in> {CHR ''e'', CHR ''E''})"
proof
  assume "str_lower w = ''true''"
  then obtain a b c d where w: "w = [a, b, c, d]"
    and l: "lower_char a = CHR ''t''" "lower_char b = CHR ''r''"
      "lower_char c = CHR ''u''" "lower_char d = CHR ''e''"
    unfolding str_lower_def by (auto simp only: map_eq_Cons_conv map_is_Nil_conv)
  show "\<exists>a b c d. w = [a, b, c, d] \<and> a \<in> {CHR ''t'', CHR ''T''} \<and> b \<in> {CHR ''r'', CHR ''R''} \<and>
        c \<in> {CHR ''u'', CHR ''U''} \<and> d \<in> {CHR ''e'', CHR ''E''}"
    using w l unfolding lower_char_cases by blast
next
  assume "\<exists>a b c d. w = [a, b, c, d] \<and> a \<in> {CHR ''t'', CHR ''T''} \<and> b \<in> {CHR ''r'', CHR ''R''} \<and>
        c \<in> {CHR ''u'', CHR ''U''} \<and> d \<in> {CHR ''e'', CHR ''E''}"
  then obtain a b c d where w: "w = [a, b, c, d]"
    and l: "lower_char a = CHR ''t''" "lower_char b = CHR ''r''"
      "lower_char c = CHR ''u''" "lower_char d = CHR ''e''"
    unfolding lower_char_cases [symmetric] by blast
  show "str_lower w = ''true''" unfolding str_lower_def w by (simp only: list.map l)
qed

lemma str_lower_yes:
  "str_lower w = ''yes'' \<longleftrightarrow>
     (\<exists>a b c. w = [a, b, c] \<and> a \<in> {CHR ''y'', CHR ''Y''} \<and> b \<in> {CHR ''e'', CHR ''E''} \<and>
        c \<in> {CHR ''s'', CHR ''S''})"
proof
  assume "str_lower w = ''yes''"
  then obtain a b c where w: "w = [a, b, c]"
    and l: "lower_char a = CHR ''y''" "lower_char b = CHR ''e''" "lower_char c = CHR ''s''"
    unfolding str_lower_def by (auto simp only: map_eq_Cons_conv map_is_Nil_conv)
  show "\<exists>a b c. w = [a, b, c] \<and> a \<in> {CHR ''y'', CHR ''Y''} \<and> b \<in> {CHR ''e'', CHR ''E''} \<and>
        c \<in> {CHR ''s'', CHR ''S''}"
    using w l unfolding lower_char_cases by blast
next
  assume "\<exists>a b c. w = [a, b, c] \<and> a \<in> {CHR ''y'', CHR ''Y''} \<and> b \<in> {CHR ''e'', CHR ''E''} \<and>
        c \<in> {CHR ''s'', CHR ''S''}"
  then obtain a b c where w: "w = [a, b, c]"
    and l: "lower_char a = CHR ''y''" "lower_char b = CHR ''e''" "lower_char c = CHR ''s''"
    unfolding lower_char_cases [symmetric] by blast
  show "str_lower w = ''yes''" unfolding str_lower_def w by (simp only: list.map l)
qed

lemma str_lower_one: "str_lower w = ''1'' \<longleftrightarrow> w = ''1''"
proof
  assume "str_lower w = ''1''"
  then obtain a where w: "w = [a]" and l: "lower_char a = CHR ''1''"
    unfolding str_lower_def by (auto simp only: map_eq_Cons_conv map_is_Nil_conv)
  show "w = ''1''" using w l unfolding lower_char_cases by simp
next
  assume "w = ''1''"
  then show "str_lower w = ''1''" by (simp add: str_lower_def lower_char_def)
qed

lemma str_strip_decomp:
  "\<exists>l r. s = l @ str_strip s @ r \<and> (\<forall>c\<in>set l. is_space c) \<and> (\<forall>c\<in>set r. is_space c)"
proof -
  let ?t = "dropWhile is_space s"
  have 1: "s = takeWhile is_space s @ ?t" by simp
  have "rev (dropWhile is_space (rev ?t)) @ rev (takeWhile is_space (rev ?t)) =
        rev (takeWhile is_space (rev ?t) @ dropWhile is_space (rev ?t))"
    by (simp only: rev_append)
  also have "\<dots> = ?t" by simp
  finally have "?t = rev (dropWhile is_space (rev ?t)) @ rev (takeWhile is_space (rev ?t))"
    by simp
  then have "s = takeWhile is_space s @ str_strip s @ rev (takeWhile is_space (rev ?t))"
    using 1 by (simp add: str_strip_def)
  moreover have "\<forall>c\<in>set (takeWhile is_space s). is_space c"
    by (auto dest: set_takeWhileD)
  moreover have "\<forall>c\<in>set (rev (takeWhile is_space (rev ?t))). is_space c"
    by (auto dest: set_takeWhileD)
  ultimately show ?thesis by blast
qed

lemma str_strip_frame:
  assumes "\<forall>c\<in>set l. is_space c" and "\<forall>c\<in>set r. is_space c"
    and "w \<noteq> []" and "\<not> is_space (hd w)" and "\<not> is_space (last w)"
  shows "str_strip (l @ w @ r) = w"
proof -
  have "dropWhile is_space (l @ w @ r) = dropWhile is_space (w @ r)"
    using assms(1) by (intro dropWhile_append2) simp
  also have "\<dots> = w @ r"
    using assms(3,4) by (cases w) simp_all
  finally have 1: "dropWhile is_space (l @ w @ r) = w @ r" .
  have "dropWhile is_space (rev r @ rev w) = dropWhile is_space (rev w)"
    using assms(2) by (intro dropWhile_append2) simp
  also have "\<dots> = rev w"
    using assms(3,5) by (cases "rev w") (simp_all add: last_rev [symmetric])
  finally show ?thesis by (simp add: str_strip_def 1)
qed

lemma is_space_iff:
  "is_space c \<longleftrightarrow> c \<in> {CHR '' '', CHR 0x09, CHR 0x0A, CHR 0x0B, CHR 0x0C, CHR 0x0D}"
  by (simp add: is_space_def)

lemma parse_bool_string_trimmed:
  "parse_bool_string s \<longleftrightarrow>
      (\<exists>l w r. s = l @ w @ r \<and> (\<forall>c\<in>set l. is_space c) \<and> (\<forall>c\<in>set r. is_space c) \<and>
         (str_lower w = ''true'' \<or> str_lower w = ''yes'' \<or> str_lower w = ''1''))"
  (is "?lhs \<longleftrightarrow> ?rhs")
proof
  assume ?lhs
  then have v: "str_lower (str_strip s) = ''true'' \<or> str_lower (str_strip s) = ''yes'' \<or>
      str_lower (str_strip s) = ''1''"
    by (auto simp: parse_bool_string_def Let_def split: if_splits)
  from str_strip_decomp [of s] obtain l r where
    s: "s = l @ str_strip s @ r" and l: "\<forall>c\<in>set l. is_space c" and r: "\<forall>c\<in>set r. is_space c"
    by blast
  from s l r v show ?rhs by blast
next
  assume ?rhs
  then obtain l w r where s: "s = l @ w @ r"
    and l: "\<forall>c\<in>set l. is_space c" and r: "\<forall>c\<in>set r. is_space c"
    and w: "str_lower w = ''true'' \<or> str_lower w = ''yes'' \<or> str_lower w = ''1''"
    by blast
  from w have ne: "w \<noteq> []" by (auto simp: str_lower_def)
  have hl: "lower_char (hd w) \<in> {CHR ''t'', CHR ''y'', CHR ''1''}"
    "lower_char (last w) \<in> {CHR ''e'', CHR ''s'', CHR ''1''}"
    using w ne by (auto simp: str_lower_def hd_map [symmetric] last_map [symmetric])
  have "is_space (lower_char c) \<longleftrightarrow> is_space c" for c
    by (simp add: is_space_def lower_char_def)
  moreover have "\<not> is_space (lower_char (hd w))" "\<not> is_space (lower_char (last w))"
    using hl by (auto simp: is_space_def)
  ultimately have "\<not> is_space (hd w)" "\<not> is_space (last w)" by simp_all
  with l r ne have "str_strip s = w" unfolding s by (rule str_strip_frame)
  then show ?lhs using w by (auto simp: parse_bool_string_def Let_def)
qed

lemma parse_bool_string_iff:
  "parse_bool_string s \<longleftrightarrow>
      (\<exists>l w r. s = l @ w @ r \<and>
         set l \<subseteq> {CHR '' '', CHR 0x09, CHR 0x0A, CHR 0x0B, CHR 0x0C, CHR 0x0D} \<and>
         set r \<subseteq> {CHR '' '', CHR 0x09, CHR 0x0A, CHR 0x0B, CHR 0x0C, CHR 0x0D} \<and>
         ((\<exists>a b c d. w = [a, b, c, d] \<and> a \<in> {CHR ''t'', CHR ''T''} \<and> b \<in> {CHR ''r'', CHR ''R''} \<and>
             c \<in> {CHR ''u'', CHR ''U''} \<and> d \<in> {CHR ''e'', CHR ''E''}) \<or>
          (\<exists>a b c. w = [a, b, c] \<and> a \<in> {CHR ''y'', CHR ''Y''} \<and> b \<in> {CHR ''e'', CHR ''E''} \<and>
             c \<in> {CHR ''s'', CHR ''S''}) \<or>
          w = ''1''))"
  unfolding subset_eq
  using parse_bool_string_trimmed [of s]
  unfolding is_space_iff str_lower_true str_lower_yes str_lower_one .

lemma parse_bool_string_examples:
  "parse_bool_string ''True''" "parse_bool_string ''yes''" "parse_bool_string ''1''"
  "parse_bool_string ''TRUE''" "parse_bool_string ''  Yes  ''"
  "\<not> parse_bool_string ''no''" "\<not> parse_bool_string ''0''" "\<not> parse_bool_string ''false''"
  "\<not> parse_bool_string ''garbage''" "\<not> parse_bool_string []"
  by (simp_all add: parse_bool_string_def str_lower_def str_strip_def lower_char_def is_space_def)

text \<open>
  Claim C6. For every input string \<open>s\<close>, boolean coercion returns true exactly when the
  trimmed, lowercased form of \<open>s\<close> is one of \<open>true\<close>, \<open>yes\<close>, \<open>1\<close>, that is, when \<open>s\<close> is
  one of these words in any mix of upper and lower case between white space (space, tab,
  line feed, vertical tab, form feed, carriage return) and nothing else, and false for
  every other string; as a coercion of a field it never raises. So \<open>True\<close>, \<open>yes\<close>, \<open>1\<close>,
  \<open>TRUE\<close> and \<open>Yes\<close> between blanks are true, \<open>no\<close>, \<open>0\<close>, \<open>false\<close>, \<open>garbage\<close> and the
  empty string are false.
\<close>

theorem parse_bool_string_spec:
  "(parse_bool_string s \<longleftrightarrow>
      (\<exists>l w r. s = l @ w @ r \<and>
         set l \<subseteq> {CHR '' '', CHR 0x09, CHR 0x0A, CHR 0x0B, CHR 0x0C, CHR 0x0D} \<and>
         set r \<subseteq> {CHR '' '', CHR 0x09, CHR 0x0A, CHR 0x0B, CHR 0x0C, CHR 0x0D} \<and>
         ((\<exists>a b c d. w = [a, b, c, d] \<and> a \<in> {CHR ''t'', CHR ''T''} \<and> b \<in> {CHR ''r'', CHR ''R''} \<and>
             c \<in> {CHR ''u'', CHR ''U''} \<and> d \<in> {CHR ''e'', CHR ''E''}) \<or>
          (\<exists>a b c. w = [a, b, c] \<and> a \<in> {CHR ''y'', CHR ''Y''} \<and> b \<in> {CHR ''e'', CHR ''E''} \<and>
             c \<in> {CHR ''s'', CHR ''S''}) \<or>
          w = ''1''))) \<and>
   apply_filter e ParseBoolString s = Inr ([], PBool (parse_bool_string s)) \<and>
   (parse_bool_string ''True'' \<and> parse_bool_string ''yes'' \<and> parse_bool_string ''1'' \<and>
    parse_bool_string ''TRUE'' \<and> parse_bool_string ''  Yes  '' \<and>
    \<not> parse_bool_string ''no'' \<and> \<not> parse_bool_string ''0'' \<and>
    \<not> parse_bool_string ''false'' \<and> \<not> parse_bool_string ''garbage'' \<and>
    \<not> parse_bool_string [])"
proof -
  have a: "parse_bool_string s \<longleftrightarrow>
      (\<exists>l w r. s = l @ w @ r \<and>
         set l \<subseteq> {CHR '' '', CHR 0x09, CHR 0x0A, CHR 0x0B, CHR 0x0C, CHR 0x0D} \<and>
         set r \<subseteq> {CHR '' '', CHR 0x09, CHR 0x0A, CHR 0x0B, CHR 0x0C, CHR 0x0D} \<and>
         ((\<exists>a b c d. w = [a, b, c, d] \<and> a \<in> {CHR ''t'', CHR ''T''} \<and> b \<in> {CHR ''r'', CHR ''R''} \<and>
             c \<in> {CHR ''u'', CHR ''U''} \<and> d \<in> {CHR ''e'', CHR ''E''}) \<or>
          (\<exists>a b c. w = [a, b, c] \<and> a \<in> {CHR ''y'', CHR ''Y''} \<and> b \<in> {CHR ''e'', CHR ''E''} \<and>
             c \<in> {CHR ''s'', CHR ''S''}) \<or>
          w = ''1''))"
    by (rule parse_bool_string_iff)
  have b: "apply_filter e ParseBoolString s = Inr ([], PBool (parse_bool_string s))"
    by simp
  have c: "parse_bool_string ''True'' \<and> parse_bool_string ''yes'' \<and> parse_bool_string ''1'' \<and>
    parse_bool_string ''TRUE'' \<and> parse_bool_string ''  Yes  '' \<and>
    \<not> parse_bool_string ''no'' \<and> \<not> parse_bool_string ''0'' \<and>
    \<not> parse_bool_string ''false'' \<and> \<not> parse_bool_string ''garbage'' \<and>
    \<not> parse_bool_string []"
    by (intro conjI parse_bool_string_examples)
  show ?thesis by (rule conjI [OF a conjI [OF b c]])
qed

section \<open>validate on a failed load\<close>

text \<open>
  Claim C9. \<open>validate None\<close> raises on the attribute access \<open>conf.default\<close>; \<open>validate\<close>
  returns a value only for an input that is not \<open>None\<close>; so when \<open>parse_config\<close> returns
  \<open>None\<close>, \<open>main_khal\<close> ends with the uncaught exception and never reaches the exit
  with \<open>Invalid config file, exiting.\<close>
\<close>

theorem validate_None_raises:
  "validate None = Inl (AttributeError ''default'') \<and>
   (\<forall>conf r. validate conf = Inr r \<longrightarrow> conf \<noteq> None) \<and>
   (\<forall>e cfile rd lg. parse_config e cfile rd = Inr (lg, None) \<longrightarrow>
      main_khal_load e cfile rd = Uncaught (AttributeError ''default''))"
proof -
  have 1: "validate None = Inl (AttributeError ''default'')"
    by (simp add: validate_def)
  have 2: "conf \<noteq> None" if "validate conf = Inr r" for conf r
    using that 1 by (cases conf) simp_all
  have 3: "main_khal_load e cfile rd = Uncaught (AttributeError ''default'')"
    if "parse_config e cfile rd = Inr (lg, None)" for e cfile rd lg
    using that 1 by (simp add: main_khal_load_def)
  from 1 2 3 show ?thesis by blast
qed

text \<open>The theorem at an unreadable file, and \<open>validate\<close> returning on a configuration.\<close>

theorem validate_None_raises_witness:
  "parse_config env_utc ''khal.conf'' ReadNothing = Inr ([CannotRead ''khal.conf''], None) \<and>
   main_khal_load env_utc ''khal.conf'' ReadNothing = Uncaught (AttributeError ''default'') \<and>
   validate (Some (conf_with default_unset)) = Inr ([], Some ((conf_with default_unset)(''default'' \<mapsto>
       Single (default_unset(''default_calendar'' \<mapsto> PStr ''home''))))) \<and>
   Some (conf_with default_unset) \<noteq> None"
proof -
  have p: "parse_config env_utc ''khal.conf'' ReadNothing = Inr ([CannotRead ''khal.conf''], None)"
    by (simp add: parse_config_def)
  have v: "validate (Some (conf_with default_unset)) = Inr ([], Some ((conf_with default_unset)(''default'' \<mapsto>
       Single (default_unset(''default_calendar'' \<mapsto> PStr ''home'')))))"
    by (simp add: validate_def conf_with_def default_unset_def home_work_def)
  from validate_None_raises p v show ?thesis by blast
qed

section \<open>Cross-field validation\<close>

lemma names_of_eq:
  "map (\<lambda>cal. cal ''name'') cals = map Some ns \<Longrightarrow> names_of cals = Inr ns"
  by (induction cals arbitrary: ns) auto

lemma py_eq_PStr: "py_eq (PStr s) y \<longleftrightarrow> y = PStr s"
  by (cases y) auto

lemma list_ex_py_eq_PStr: "list_ex (py_eq (PStr s)) ns \<longleftrightarrow> PStr s \<in> set ns"
  by (auto simp: list_ex_iff py_eq_PStr)

text \<open>
  Claim C2. For every assembled configuration with a non-empty list of calendars, each
  carrying its name: if \<open>default.default_calendar\<close> holds the boolean \<open>True\<close>, \<open>validate\<close>
  rewrites it to the name of the first calendar and returns the configuration; if it is
  a string equal to the name of some calendar, \<open>validate\<close> returns the configuration
  as it is; if it is a string that names no calendar, \<open>validate\<close> returns \<open>None\<close>.
\<close>

theorem validate_default_calendar:
  assumes "c ''default'' = Some (Single d)"
    and "d ''default_calendar'' = Some v"
    and "c ''calendars'' = Some (Collection cals)"
    and "cals \<noteq> []"
    and "map (\<lambda>cal. cal ''name'') cals = map Some ns"
  shows "(v = PBool True \<longrightarrow>
            validate (Some c) =
              Inr ([], Some (c(''default'' \<mapsto> Single (d(''default_calendar'' \<mapsto> hd ns)))))) \<and>
         (\<forall>s. v = PStr s \<and> PStr s \<in> set ns \<longrightarrow> validate (Some c) = Inr ([], Some c)) \<and>
         (\<forall>s. v = PStr s \<and> PStr s \<notin> set ns \<longrightarrow>
            validate (Some c) = Inr ([NotValidCalendar (PStr s)], None))"
proof -
  obtain cal rest where cals: "cals = cal # rest" using assms(4) by (cases cals) auto
  then obtain n ns' where ns: "ns = n # ns'" and n: "cal ''name'' = Some n"
    using assms(5) by (cases ns) auto
  have 1: "validate (Some c) =
      Inr ([], Some (c(''default'' \<mapsto> Single (d(''default_calendar'' \<mapsto> hd ns)))))"
    if "v = PBool True"
    using that assms(1-3) cals ns n by (simp add: validate_def)
  have 2: "validate (Some c) =
      (if PStr s \<in> set ns then Inr ([], Some c) else Inr ([NotValidCalendar (PStr s)], None))"
    if "v = PStr s" for s
    using that assms(1-3) names_of_eq [OF assms(5)]
    by (simp add: validate_def list_ex_py_eq_PStr)
  from 1 2 show ?thesis by simp
qed

text \<open>The three cases on a configuration with the calendars \<open>home\<close> and \<open>work\<close>.\<close>

theorem validate_default_calendar_witness:
  "validate (Some (conf_with default_unset)) =
     Inr ([], Some ((conf_with default_unset)(''default'' \<mapsto>
        Single (default_unset(''default_calendar'' \<mapsto> PStr ''home''))))) \<and>
   validate (Some (conf_with (default_named ''work''))) =
     Inr ([], Some (conf_with (default_named ''work''))) \<and>
   validate (Some (conf_with (default_named ''nope''))) =
     Inr ([NotValidCalendar (PStr ''nope'')], None)"
proof -
  have c: "conf_with d ''default'' = Some (Single d)"
    "conf_with d ''calendars'' = Some (Collection home_work)" for d
    by (simp_all add: conf_with_def)
  have d: "default_unset ''default_calendar'' = Some (PBool True)"
    "default_named s ''default_calendar'' = Some (PStr s)" for s
    by (simp_all add: default_unset_def default_named_def)
  have h: "home_work \<noteq> []"
    "map (\<lambda>cal. cal ''name'') home_work = map Some [PStr ''home'', PStr ''work'']"
    by (simp_all add: home_work_def)
  from validate_default_calendar
         [of "conf_with default_unset" default_unset "PBool True" home_work
             "[PStr ''home'', PStr ''work'']", OF c(1) d(1) c(2) h]
    validate_default_calendar
         [of "conf_with (default_named ''work'')" "default_named ''work''" "PStr ''work''"
             home_work "[PStr ''home'', PStr ''work'']", OF c(1) d(2) c(2) h]
    validate_default_calendar
         [of "conf_with (default_named ''nope'')" "default_named ''nope''" "PStr ''nope''"
             home_work "[PStr ''home'', PStr ''work'']", OF c(1) d(2) c(2) h]
  show ?thesis by simp
qed

section \<open>Defaults\<close>

text \<open>
  Claim C10. For every declared field whose option is absent from the raw section,
  \<open>Section.parse\<close> stores the declared default as the schema writes it, and no coercion
  is applied to it: the turn of the loop stores \<open>dflt\<close> under the option, and the
  Namespace that \<open>parse\<close> returns holds it. In particular the schema gives
  \<open>default_calendar\<close> the boolean \<open>True\<close> and \<open>readonly\<close> the boolean \<open>False\<close>.
\<close>

theorem default_stored_as_written:
  assumes "name \<in> set (sections cp)" and "cp_get cp name option = None"
  shows "parse_field e name (option, dflt, flt) (cp, lg, prs, fl) =
           Inr (consume cp name [option],
                if dflt = PNone then lg @ [MissingOption option name] else lg,
                prs(option \<mapsto> dflt), fl \<or> dflt = PNone) \<and>
         ((option, dflt, flt) \<in> set (schema e (cls p)) \<and>
          parse e p name cp lg = Inr (cp', lg', Some v) \<longrightarrow> v option = Some dflt) \<and>
         (''default_calendar'', PBool True, NoFilter) \<in> set (schema e DefaultSection) \<and>
         (''readonly'', PBool False, ParseBoolString) \<in> set (schema e CalendarSection)"
proof -
  have 1: "parse_field e name (option, dflt, flt) (cp, lg, prs, fl) =
           Inr (consume cp name [option],
                if dflt = PNone then lg @ [MissingOption option name] else lg,
                prs(option \<mapsto> dflt), fl \<or> dflt = PNone)"
    using assms by (simp add: parse_field_eq field_outcome_absent)
  have 2: "v option = Some dflt"
    if m: "(option, dflt, flt) \<in> set (schema e (cls p))"
      and r: "parse e p name cp lg = Inr (cp', lg', Some v)"
  proof -
    from r obtain msgs where "section_outcome e p name cp = Inr (msgs, Some v)"
      using assms(1) by (auto simp: parse_eq split: sum.splits)
    then obtain fl' where
      f: "fields_outcome e name cp (schema e (cls p)) ([], parsed p, False) = Inr (msgs, v, fl')"
      by (auto simp: section_outcome_def split: sum.splits if_splits)
    from fields_outcome_value [OF f schema_names_distinct m] assms(2)
    show ?thesis by (auto simp: field_outcome_absent)
  qed
  from 1 2 show ?thesis by simp
qed

text \<open>A calendar section without \<open>readonly\<close>.\<close>

theorem default_stored_as_written_witness:
  "''calendar home'' \<in> set (sections home_conf) \<and>
   cp_get home_conf ''calendar home'' ''readonly'' = None \<and>
   (''readonly'', PBool False, ParseBoolString) \<in> set (schema env_utc CalendarSection) \<and>
   (\<exists>p cp' lg' v. get_section_parser ''calendar home'' = Some p \<and> cls p = CalendarSection \<and>
      parse env_utc p ''calendar home'' home_conf [] = Inr (cp', lg', Some v) \<and>
      v ''readonly'' = Some (PBool False))"
proof -
  define p where "p = \<lparr>cls = CalendarSection, parsed = [''name'' \<mapsto> PStr ''home'']\<rparr>"
  have g: "get_section_parser ''calendar home'' = Some p"
    by (simp add: get_section_parser_eq p_def str_lower_def lower_char_def calendar_name_def)
  have s: "''calendar home'' \<in> set (sections home_conf)"
    by (simp add: home_conf_def sections_def)
  have a: "cp_get home_conf ''calendar home'' ''readonly'' = None"
    by (simp add: home_conf_def cp_get_def optionxform_def str_lower_def lower_char_def)
  have m: "(''readonly'', PBool False, ParseBoolString) \<in> set (schema env_utc (cls p))"
    by (simp add: p_def)
  obtain cp' lg' v where
    r: "parse env_utc p ''calendar home'' home_conf [] = Inr (cp', lg', Some v)"
    by (simp add: parse_def p_def parse_field_def on_config_error_def home_conf_def cp_get_def
        remove_option_def optionxform_def str_lower_def lower_char_def env_utc_def)
  from default_stored_as_written [OF s a, of env_utc "PBool False" ParseBoolString]
  have "v ''readonly'' = Some (PBool False)" using m r by blast
  with g s a m r show ?thesis by (auto simp: p_def)
qed

section \<open>What the scan assembles\<close>

text \<open>The names of the calendars, in the order of the file, and the entry of a group
  that is no collection.\<close>

lemma scan_outcome_coll_ok:
  "scan_outcome e cp names (lg, its, fl) = Inr (lg', its', fl') \<Longrightarrow> coll_ok its \<Longrightarrow> coll_ok its'"
proof (induction names arbitrary: lg its fl)
  case Nil
  then show ?case by simp
next
  case (Cons n ns)
  from scan_outcome_step [OF Cons.prems] obtain lg1 its1 fl1 where
    "scan_outcome e cp ns (lg1, its1, fl1) = Inr (lg', its', fl')" and "coll_ok its1"
    by blast
  then show ?case by (rule Cons.IH)
qed

lemma section_outcome_name:
  assumes "section_outcome e p n cp = Inr (msgs, Some v)"
  shows "v ''name'' = parsed p ''name''"
proof -
  from assms obtain fl where
    f: "fields_outcome e n cp (schema e (cls p)) ([], parsed p, False) = Inr (msgs, v, fl)"
    by (auto simp: section_outcome_def split: sum.splits if_splits)
  have "''name'' \<notin> fst ` set (schema e (cls p))" by (cases "cls p") simp_all
  from fields_outcome_other [OF f this] show ?thesis .
qed

lemma coll_update_calendars [simp]: "coll (its(''calendars'' \<mapsto> Collection l)) = l"
  by (simp add: coll_def)

lemma coll_update_other: "g \<noteq> ''calendars'' \<Longrightarrow> coll (its(g \<mapsto> x)) = coll its"
  by (simp add: coll_def)

lemma scan_outcome_calendars:
  "scan_outcome e cp names (lg, its, fl) = Inr (lg', its', fl') \<Longrightarrow> coll_ok its \<Longrightarrow> \<not> fl' \<Longrightarrow>
     map (\<lambda>cal. cal ''name'') (coll its') =
       map (\<lambda>cal. cal ''name'') (coll its) @
       map (\<lambda>n. Some (PStr (calendar_name n)))
         (filter (\<lambda>n. section_kind n = Some CalendarSection) names)"
proof (induction names arbitrary: lg its fl)
  case Nil
  then show ?case by simp
next
  case (Cons n ns)
  from scan_outcome_step [OF Cons.prems(1,2)] obtain lg1 its1 fl1 where
    rest: "scan_outcome e cp ns (lg1, its1, fl1) = Inr (lg', its', fl')" and ok: "coll_ok its1" and
    step: "(get_section_parser n = None \<and> lg1 = lg @ [UnknownSection n] \<and> its1 = its \<and> fl1 = fl) \<or>
      (\<exists>p msgs. get_section_parser n = Some p \<and> section_outcome e p n cp = Inr (msgs, None) \<and>
         lg1 = lg @ msgs \<and> its1 = its \<and> fl1) \<or>
      (\<exists>p msgs v. get_section_parser n = Some p \<and>
         section_outcome e p n cp = Inr (msgs, Some v) \<and> lg1 = lg @ msgs \<and>
         its1 = its(group (cls p) \<mapsto>
                  (if is_collection (cls p) then Collection (coll its @ [v]) else Single v)) \<and>
         fl1 = fl)"
    by blast
  have nf: "\<not> fl1" using scan_outcome_failed [OF rest ok] Cons.prems(3) by simp
  have here: "map (\<lambda>cal. cal ''name'') (coll its1) =
       map (\<lambda>cal. cal ''name'') (coll its) @
       map (\<lambda>n. Some (PStr (calendar_name n)))
         (filter (\<lambda>n. section_kind n = Some CalendarSection) [n])"
  proof -
    consider (unknown) "get_section_parser n = None" "its1 = its"
      | (known) p msgs v where "get_section_parser n = Some p"
          "section_outcome e p n cp = Inr (msgs, Some v)"
          "its1 = its(group (cls p) \<mapsto>
                  (if is_collection (cls p) then Collection (coll its @ [v]) else Single v))"
      using step nf by (elim disjE exE conjE) simp_all
    then show ?thesis
    proof cases
      case unknown
      then show ?thesis by (simp add: section_kind_def)
    next
      case known
      show ?thesis
      proof (cases "cls p = CalendarSection")
        case True
        have "v ''name'' = Some (PStr (calendar_name n))"
          using section_outcome_name [OF known(2)] parser_calendar [OF known(1) True] by simp
        then show ?thesis using known True by (simp add: section_kind_def)
      next
        case False
        then show ?thesis
          using known by (simp add: section_kind_def is_collection_iff coll_update_other
              group_not_calendars)
      qed
    qed
  qed
  from Cons.IH [OF rest ok Cons.prems(3)] here show ?case by simp
qed

lemma scan_outcome_single:
  "scan_outcome e cp names (lg, its, fl) = Inr (lg', its', fl') \<Longrightarrow> coll_ok its \<Longrightarrow> \<not> fl' \<Longrightarrow>
   k \<noteq> CalendarSection \<Longrightarrow> filter (\<lambda>n. section_kind n = Some k) names \<noteq> [] \<Longrightarrow>
     \<exists>msgs v. section_outcome e (new_section k)
                 (last (filter (\<lambda>n. section_kind n = Some k) names)) cp = Inr (msgs, Some v) \<and>
              its' (group k) = Some (Single v)"
proof (induction names arbitrary: lg its fl)
  case Nil
  then show ?case by simp
next
  case (Cons n ns)
  let ?ms = "filter (\<lambda>n. section_kind n = Some k) ns"
  from scan_outcome_step [OF Cons.prems(1,2)] obtain lg1 its1 fl1 where
    rest: "scan_outcome e cp ns (lg1, its1, fl1) = Inr (lg', its', fl')" and ok: "coll_ok its1" and
    step: "(get_section_parser n = None \<and> lg1 = lg @ [UnknownSection n] \<and> its1 = its \<and> fl1 = fl) \<or>
      (\<exists>p msgs. get_section_parser n = Some p \<and> section_outcome e p n cp = Inr (msgs, None) \<and>
         lg1 = lg @ msgs \<and> its1 = its \<and> fl1) \<or>
      (\<exists>p msgs v. get_section_parser n = Some p \<and>
         section_outcome e p n cp = Inr (msgs, Some v) \<and> lg1 = lg @ msgs \<and>
         its1 = its(group (cls p) \<mapsto>
                  (if is_collection (cls p) then Collection (coll its @ [v]) else Single v)) \<and>
         fl1 = fl)"
    by blast
  have nf: "\<not> fl1" using scan_outcome_failed [OF rest ok] Cons.prems(3) by simp
  show ?case
  proof (cases "?ms = []")
    case False
    from Cons.IH [OF rest ok Cons.prems(3,4) False] False show ?thesis by simp
  next
    case True
    then have kind: "section_kind n = Some k" using Cons.prems(5) by (auto split: if_splits)
    then obtain p where p: "get_section_parser n = Some p" and c: "cls p = k"
      by (auto simp: section_kind_def)
    have pk: "p = new_section k" using parser_single [OF p] c Cons.prems(4) by simp
    from step p nf obtain msgs v where
      v: "section_outcome e p n cp = Inr (msgs, Some v)" and
      i: "its1 = its(group (cls p) \<mapsto>
                  (if is_collection (cls p) then Collection (coll its @ [v]) else Single v))"
      by auto
    have "its' (group k) = its1 (group k)"
    proof (rule scan_outcome_absent [OF rest ok])
      show "\<not> has_section k ns" using True by (auto simp: has_section_def filter_empty_conv)
    qed
    then have "its' (group k) = Some (Single v)"
      using i c Cons.prems(4) by (simp add: is_collection_iff)
    then show ?thesis using v pk True kind by simp
  qed
qed

section \<open>A sample configuration\<close>

text \<open>The example of the specification, with a second calendar, a second default
  section, an unknown section and an unknown option.\<close>

lemma sample_distinct: "distinct (sections sample_conf)"
  by code_simp

lemma sample_has:
  "has_section DefaultSection (sections sample_conf)"
  "has_section LocaleSection (sections sample_conf)"
  "has_section CalendarSection (sections sample_conf)"
  by code_simp+

lemma sample_complete: "complete env_utc sample_conf"
  by code_simp

lemma sample_coercible: "coercible env_utc sample_conf"
  by code_simp


section \<open>A well-formed file\<close>


text \<open>The captured identifier is what follows the nine characters that spell
  \<open>calendar \<close> in any case.\<close>

lemma calendar_name_header:
  assumes "section_kind name = Some CalendarSection" and "CHR 0x0A \<notin> set name"
  shows "name = take 9 name @ calendar_name name \<and> str_lower (take 9 name) = ''calendar ''"
proof -
  have t: "takeWhile (\<lambda>c. c \<noteq> CHR 0x0A) (drop 9 name) = drop 9 name"
    using assms(2) by (auto simp: takeWhile_eq_all_conv dest: in_set_dropD)
  have l: "str_lower (take 9 name) = ''calendar ''"
    using assms(1) by (auto simp: section_kind_def get_section_parser_eq new_section_def
        split: if_splits)
  have "name = take 9 name @ calendar_name name"
    unfolding calendar_name_def t by simp
  with l show ?thesis by simp
qed


section \<open>Repeated sections\<close>

text \<open>
  Claim C8. In every assembled result a group that is no collection (\<open>default\<close>,
  \<open>locale\<close>, \<open>sqlite\<close>) holds one Namespace: when several raw sections match its schema
  (case variants of the name), the result holds the values that \<open>Section.parse\<close> returns
  for the last of them in the order of the file, and the load has not failed.
\<close>

theorem later_section_overwrites:
  assumes "distinct (sections cp)"
    and "parse_config e cfile (ReadOk cp) = Inr (lg, Some c)"
    and "k \<noteq> CalendarSection"
    and "filter (\<lambda>name. section_kind name = Some k) (sections cp) = ms"
    and "ms \<noteq> []"
  shows "\<exists>cp' lg' v.
           parse e (new_section k) (last ms) cp [] = Inr (cp', lg', Some v) \<and>
           c (group k) = Some (Single v)"
proof -
  from assms(2) obtain lg0 fl where
    sc: "scan_outcome e cp (sections cp) ([], Map.empty, False) = Inr (lg0, c, fl)" and
    nf: "\<not> fl"
    by (auto simp: parse_config_eq [OF assms(1)] split: sum.splits if_splits)
  from scan_outcome_single [OF sc _ nf assms(3)] assms(4,5) obtain msgs v where
    v: "section_outcome e (new_section k) (last ms) cp = Inr (msgs, Some v)" and
    c: "c (group k) = Some (Single v)"
    by auto
  have "last ms \<in> set ms" using assms(5) by simp
  then have "last ms \<in> set (sections cp)" using assms(4) by auto
  then have "parse e (new_section k) (last ms) cp [] =
      Inr (consume cp (last ms) (map fst (schema e (cls (new_section k)))), msgs, Some v)"
    using v by (simp add: parse_eq)
  with c show ?thesis by blast
qed

text \<open>The sample has \<open>[default]\<close> with \<open>default_command = agenda\<close> and then
  \<open>[Default]\<close> with \<open>debug = yes\<close>: the result has the values of the second.\<close>

theorem later_section_overwrites_witness:
  "distinct (sections sample_conf) \<and>
   filter (\<lambda>name. section_kind name = Some DefaultSection) (sections sample_conf) =
     [''default'', ''Default''] \<and>
   (\<exists>lg c cp' lg' v.
      parse_config env_utc ''khal.conf'' (ReadOk sample_conf) = Inr (lg, Some c) \<and>
      parse env_utc (new_section DefaultSection) ''Default'' sample_conf [] =
        Inr (cp', lg', Some v) \<and>
      c ''default'' = Some (Single v) \<and>
      v ''debug'' = Some (PBool True) \<and> v ''default_command'' = Some (PStr ''calendar''))"
proof -
  have ms: "filter (\<lambda>name. section_kind name = Some DefaultSection) (sections sample_conf) =
     [''default'', ''Default'']"
    by code_simp
  obtain lg c where
    pc: "parse_config env_utc ''khal.conf'' (ReadOk sample_conf) = Inr (lg, Some c)"
    using parse_config_result [OF sample_distinct sample_coercible, of "''khal.conf''"]
      sample_has sample_complete by auto
  from later_section_overwrites [OF sample_distinct pc _ ms] obtain cp' lg' v where
    p: "parse env_utc (new_section DefaultSection) ''Default'' sample_conf [] =
          Inr (cp', lg', Some v)" and
    c: "c (group DefaultSection) = Some (Single v)"
    by auto
  have "v ''debug'' = Some (PBool True) \<and> v ''default_command'' = Some (PStr ''calendar'')"
    using p
    by (auto simp: parse_def new_section_def parse_field_def on_config_error_def
        sample_conf_def cp_get_def remove_option_def optionxform_def str_lower_def
        lower_char_def parse_bool_string_def str_strip_def is_space_def)
  with sample_distinct ms pc p c show ?thesis by auto
qed

section \<open>Coercions that raise\<close>

text \<open>The only exceptions that leave \<open>parse_config\<close> are those of the coercions
  \<open>pytz.timezone\<close> and \<open>int\<close>: \<open>Section.parse\<close> catches \<open>ConfigParserError\<close> alone.\<close>

lemma field_outcome_error:
  "field_outcome e s cp fld = Inl err \<Longrightarrow> coercion_error err"
  by (cases fld; cases "snd (snd fld)")
     (auto simp: field_outcome_def parse_time_zone_def
           split: option.splits sum.splits prod.splits)

lemma fields_outcome_error:
  "fields_outcome e s cp flds acc = Inl err \<Longrightarrow> coercion_error err"
proof (induction flds arbitrary: acc)
  case Nil
  then show ?case by simp
next
  case (Cons fld flds)
  show ?case
  proof (cases "field_outcome e s cp fld")
    case (Inl a)
    then show ?thesis using Cons.prems field_outcome_error [of e s cp fld a] by simp
  next
    case (Inr r)
    then show ?thesis using Cons.prems Cons.IH by (auto split: prod.splits)
  qed
qed

lemma section_outcome_error:
  "section_outcome e p n cp = Inl err \<Longrightarrow> coercion_error err"
  by (auto simp: section_outcome_def dest: fields_outcome_error split: sum.splits)

lemma scan_outcome_error:
  "scan_outcome e cp names (lg, its, fl) = Inl err \<Longrightarrow> coll_ok its \<Longrightarrow> coercion_error err"
proof (induction names arbitrary: lg its fl)
  case Nil
  then show ?case by simp
next
  case (Cons n ns)
  show ?case
  proof (cases "get_section_parser n")
    case None
    then show ?thesis using Cons.prems Cons.IH by simp
  next
    case (Some p)
    show ?thesis
    proof (cases "section_outcome e p n cp")
      case (Inl a)
      then show ?thesis using Cons.prems Some section_outcome_error [of e p n cp a] by simp
    next
      case (Inr r)
      obtain msgs v where r: "r = (msgs, v)" by (cases r) auto
      show ?thesis
      proof (cases v)
        case None
        then show ?thesis using Cons.prems Some Inr r Cons.IH by simp
      next
        case (Some vals)
        define its1 where "its1 = its(group (cls p) \<mapsto>
            (if is_collection (cls p) then Collection (coll its @ [vals]) else Single vals))"
        have "scan_outcome e cp ns (lg @ msgs, its1, fl) = Inl err"
          using Cons.prems(1) \<open>get_section_parser n = Some p\<close> Inr r Some
          by (simp add: store_eq [OF Cons.prems(2)] its1_def)
        moreover have "coll_ok its1"
          unfolding its1_def by (rule coll_ok_store [OF Cons.prems(2)])
        ultimately show ?thesis by (rule Cons.IH)
      qed
    qed
  qed
qed

text \<open>A coercion that raises ends \<open>parse_config\<close>: the exception of the first such value
  in the order of the file leaves it, whatever else the file holds.\<close>

lemma raising_coercion_aborts:
  assumes "distinct (sections cp)" and "\<not> coercible e cp"
  shows "\<exists>err. parse_config e cfile (ReadOk cp) = Inl err \<and> coercion_error err"
proof -
  from assms(2) obtain name p fld raw where
    n: "name \<in> set (sections cp)" and p: "get_section_parser name = Some p"
    and f: "fld \<in> set (schema e (cls p))" and g: "cp_get cp name (fst fld) = Some raw"
    and r: "raises e (snd (snd fld)) raw"
    by (auto simp: coercible_def split: option.splits)
  from r obtain err where "apply_filter e (snd (snd fld)) raw = Inl err"
    by (auto simp: raises_def split: sum.splits)
  then have "field_outcome e name cp fld = Inl err"
    using g by (cases fld) (simp add: field_outcome_def)
  from fields_outcome_raise [OF f this, of "([], parsed p, False)"]
  obtain err1 where "fields_outcome e name cp (schema e (cls p)) ([], parsed p, False) = Inl err1"
    by blast
  then have "section_outcome e p name cp = Inl err1"
    by (simp add: section_outcome_def)
  from scan_outcome_raise [OF n p this]
  obtain err2 where
    sc: "scan_outcome e cp (sections cp) ([], Map.empty, False) = Inl err2"
    by blast
  have "coercion_error err2" using scan_outcome_error [OF sc] by simp
  then show ?thesis using sc by (simp add: parse_config_eq [OF assms(1)])
qed

text \<open>
  Claim C4, as amended. For every locale section that has a \<open>local_timezone\<close> or a
  \<open>default_timezone\<close> whose value does not resolve in the timezone database, the load
  ends with an exception that nothing catches: \<open>parse_config\<close> returns neither a
  configuration nor \<open>None\<close>, and \<open>main_khal\<close> ends with that exception. (The claim as
  stated, a failure recorded for the section while the scan goes on, is refuted by
  \<open>bad_timezone_aborts\<close> below.)
\<close>

theorem unresolved_timezone_raises:
  assumes "distinct (sections cp)"
    and "name \<in> set (sections cp)"
    and "section_kind name = Some LocaleSection"
    and "option = ''local_timezone'' \<or> option = ''default_timezone''"
    and "cp_get cp name option = Some tz"
    and "pytz_timezone e tz = None"
  shows "\<exists>err. parse_config e cfile (ReadOk cp) = Inl err \<and> coercion_error err \<and>
               main_khal_load e cfile (ReadOk cp) = Uncaught err"
proof -
  obtain p where p: "get_section_parser name = Some p" and c: "cls p = LocaleSection"
    using assms(3) by (auto simp: section_kind_def)
  have m: "(option, PNone, ParseTimeZone) \<in> set (schema e (cls p))"
    using assms(4) c by auto
  have "field_outcome e name cp (option, PNone, ParseTimeZone) = Inl (UnknownTimeZoneError tz)"
    using assms(5,6) by (simp add: field_outcome_present parse_time_zone_def)
  from fields_outcome_raise [OF m this] obtain err1 where
    "fields_outcome e name cp (schema e (cls p)) ([], parsed p, False) = Inl err1"
    by blast
  then have "section_outcome e p name cp = Inl err1"
    by (simp add: section_outcome_def)
  from scan_outcome_raise [OF assms(2) p this] obtain err where
    sc: "scan_outcome e cp (sections cp) ([], Map.empty, False) = Inl err"
    by blast
  have "coercion_error err" using scan_outcome_error [OF sc] by simp
  moreover have "parse_config e cfile (ReadOk cp) = Inl err"
    using sc by (simp add: parse_config_eq [OF assms(1)])
  ultimately show ?thesis by (auto simp: main_khal_load_def)
qed

text \<open>The theorem at a locale section with \<open>local_timezone = Nowhere\<close>.\<close>

theorem unresolved_timezone_raises_witness:
  "distinct (sections bad_timezone_conf) \<and>
   ''locale'' \<in> set (sections bad_timezone_conf) \<and>
   section_kind ''locale'' = Some LocaleSection \<and>
   cp_get bad_timezone_conf ''locale'' ''local_timezone'' = Some ''Nowhere'' \<and>
   pytz_timezone env_utc ''Nowhere'' = None \<and>
   (\<exists>err. parse_config env_utc ''khal.conf'' (ReadOk bad_timezone_conf) = Inl err \<and>
      coercion_error err \<and>
      main_khal_load env_utc ''khal.conf'' (ReadOk bad_timezone_conf) = Uncaught err)"
proof -
  have 1: "distinct (sections bad_timezone_conf)"
    and 2: "''locale'' \<in> set (sections bad_timezone_conf)"
    and 3: "section_kind ''locale'' = Some LocaleSection"
    and 5: "cp_get bad_timezone_conf ''locale'' ''local_timezone'' = Some ''Nowhere''"
    and 6: "pytz_timezone env_utc ''Nowhere'' = None"
    by code_simp+
  from unresolved_timezone_raises [OF 1 2 3 _ 5 6, of "''khal.conf''"] 1 2 3 5 6
  show ?thesis by simp
qed

text \<open>Against claim C4 as stated: on this file \<open>parse_config\<close> does not return
  \<open>None\<close> after a scan of both sections, it raises at the first.\<close>

theorem bad_timezone_aborts:
  "parse_config env_utc ''khal.conf'' (ReadOk bad_timezone_conf) =
     Inl (UnknownTimeZoneError ''Nowhere'') \<and>
   main_khal_load env_utc ''khal.conf'' (ReadOk bad_timezone_conf) =
     Uncaught (UnknownTimeZoneError ''Nowhere'')"
proof -
  have d: "distinct (sections bad_timezone_conf)" by code_simp
  have g: "get_section_parser ''locale'' = Some (new_section LocaleSection)"
    by (simp add: get_section_parser_eq str_lower_def lower_char_def)
  have "cp_get bad_timezone_conf ''locale'' ''local_timezone'' = Some ''Nowhere''" by code_simp
  then have "section_outcome env_utc (new_section LocaleSection) ''locale'' bad_timezone_conf =
          Inl (UnknownTimeZoneError ''Nowhere'')"
    by (simp add: section_outcome_def new_section_def field_outcome_def parse_time_zone_def
        env_utc_def)
  moreover have "sections bad_timezone_conf = [''locale'', ''calendar home'']" by code_simp
  ultimately have "parse_config env_utc ''khal.conf'' (ReadOk bad_timezone_conf) =
     Inl (UnknownTimeZoneError ''Nowhere'')"
    using g by (simp add: parse_config_eq [OF d])
  then show ?thesis by (simp add: main_khal_load_def)
qed

section \<open>Missing sections\<close>

text \<open>What the log of a completed scan holds.\<close>

lemma field_outcome_missing:
  "field_outcome e s cp fld = Inr (msgs, v, miss) \<Longrightarrow> fst (snd fld) = PNone \<Longrightarrow>
   cp_get cp s (fst fld) = None \<Longrightarrow> MissingOption (fst fld) s \<in> set msgs"
  by (cases fld) (auto simp: field_outcome_def)

lemma fields_outcome_log_missing:
  "fields_outcome e s cp flds (lg, prs, fl) = Inr (lg', prs', fl') \<Longrightarrow>
     set lg \<subseteq> set lg' \<and>
     (\<forall>fld\<in>set flds. fst (snd fld) = PNone \<and> cp_get cp s (fst fld) = None
        \<longrightarrow> MissingOption (fst fld) s \<in> set lg')"
proof (induction flds arbitrary: lg prs fl)
  case Nil
  then show ?case by simp
next
  case (Cons fld flds)
  from Cons.prems(1) obtain msgs v miss where
    f: "field_outcome e s cp fld = Inr (msgs, v, miss)" and
    rest: "fields_outcome e s cp flds (lg @ msgs, prs(fst fld \<mapsto> v), fl \<or> miss) = Inr (lg', prs', fl')"
    by (auto split: sum.splits)
  from Cons.IH [OF rest] field_outcome_missing [OF f] show ?case by auto
qed

lemma section_outcome_missing:
  assumes "section_outcome e p n cp = Inr (msgs, v)" and "fld \<in> set (schema e (cls p))"
    and "fst (snd fld) = PNone" and "cp_get cp n (fst fld) = None"
  shows "MissingOption (fst fld) n \<in> set msgs"
proof -
  from assms(1) obtain prs fl where
    "fields_outcome e n cp (schema e (cls p)) ([], parsed p, False) = Inr (msgs, prs, fl)"
    by (auto simp: section_outcome_def split: sum.splits)
  from fields_outcome_log_missing [OF this] assms(2-4) show ?thesis by blast
qed

lemma scan_outcome_log:
  "scan_outcome e cp names (lg, its, fl) = Inr (lg', its', fl') \<Longrightarrow> coll_ok its \<Longrightarrow>
     set lg \<subseteq> set lg' \<and>
     (\<forall>n\<in>set names. get_section_parser n = None \<longrightarrow> UnknownSection n \<in> set lg') \<and>
     (\<forall>n\<in>set names. \<forall>p msgs v. get_section_parser n = Some p \<and>
         section_outcome e p n cp = Inr (msgs, v) \<longrightarrow> set msgs \<subseteq> set lg')"
proof (induction names arbitrary: lg its fl)
  case Nil
  then show ?case by simp
next
  case (Cons n ns)
  from scan_outcome_step [OF Cons.prems] obtain lg1 its1 fl1 where
    rest: "scan_outcome e cp ns (lg1, its1, fl1) = Inr (lg', its', fl')" and ok: "coll_ok its1" and
    step: "(get_section_parser n = None \<and> lg1 = lg @ [UnknownSection n] \<and> its1 = its \<and> fl1 = fl) \<or>
      (\<exists>p msgs. get_section_parser n = Some p \<and> section_outcome e p n cp = Inr (msgs, None) \<and>
         lg1 = lg @ msgs \<and> its1 = its \<and> fl1) \<or>
      (\<exists>p msgs v. get_section_parser n = Some p \<and>
         section_outcome e p n cp = Inr (msgs, Some v) \<and> lg1 = lg @ msgs \<and>
         its1 = its(group (cls p) \<mapsto>
                  (if is_collection (cls p) then Collection (coll its @ [v]) else Single v)) \<and>
         fl1 = fl)"
    by blast
  note ih = Cons.IH [OF rest ok]
  have a: "set lg \<subseteq> set lg'" using ih step by auto
  have b: "UnknownSection n \<in> set lg'" if "get_section_parser n = None"
    using ih step that by auto
  have c: "set msgs \<subseteq> set lg'"
    if "get_section_parser n = Some p" "section_outcome e p n cp = Inr (msgs, v)" for p msgs v
  proof -
    from step that have "lg1 = lg @ msgs" by auto
    moreover have "set lg1 \<subseteq> set lg'" using ih by simp
    ultimately show ?thesis by auto
  qed
  have b': "\<forall>m\<in>set (n # ns). get_section_parser m = None \<longrightarrow> UnknownSection m \<in> set lg'"
    using b ih by simp
  have c': "\<forall>m\<in>set (n # ns). \<forall>p msgs v. get_section_parser m = Some p \<and>
         section_outcome e p m cp = Inr (msgs, v) \<longrightarrow> set msgs \<subseteq> set lg'"
  proof (intro ballI allI impI)
    fix m p msgs v
    assume m: "m \<in> set (n # ns)"
      and s: "get_section_parser m = Some p \<and> section_outcome e p m cp = Inr (msgs, v)"
    show "set msgs \<subseteq> set lg'"
    proof (cases "m = n")
      case True
      then show ?thesis using c s by blast
    next
      case False
      then have "m \<in> set ns" using m by simp
      then show ?thesis using ih s by blast
    qed
  qed
  from a b' c' show ?case by blast
qed

lemma check_required_log:
  "k \<in> set required_sections \<Longrightarrow> its (group k) = None
     \<Longrightarrow> MissingSection (group k) \<in> set (fst (check_required its))"
  by (auto simp: check_required_def Let_def)

text \<open>
  Claim C5, as amended. For every readable input file in which no coercion raises: if
  the default section, the locale section or every calendar section is absent, or a
  matched section lacks a required option, then \<open>parse_config\<close> returns \<open>None\<close>, and it does
  so after the scan of all raw sections: its log has the warning of every unknown
  section, the error of every missing required option and the error of every missing
  required section. (The claim as stated, for every readable file, is refuted by
  \<open>bad_weekday_aborts\<close> below.)
\<close>

theorem missing_section_fails:
  assumes "distinct (sections cp)"
    and "coercible e cp"
    and "\<not> has_section DefaultSection (sections cp) \<or> \<not> has_section LocaleSection (sections cp) \<or>
         \<not> has_section CalendarSection (sections cp) \<or> \<not> complete e cp"
  shows "\<exists>lg. parse_config e cfile (ReadOk cp) = Inr (lg, None) \<and>
     (\<forall>name\<in>set (sections cp). get_section_parser name = None \<longrightarrow>
        UnknownSection name \<in> set lg) \<and>
     (\<forall>name\<in>set (sections cp). \<forall>p fld. get_section_parser name = Some p \<and>
        fld \<in> set (schema e (cls p)) \<and> fst (snd fld) = PNone \<and>
        cp_get cp name (fst fld) = None \<longrightarrow> MissingOption (fst fld) name \<in> set lg) \<and>
     (\<forall>k\<in>set required_sections. \<not> has_section k (sections cp) \<longrightarrow>
        MissingSection (group k) \<in> set lg)"
proof -
  from parse_config_result [OF assms(1,2), of cfile] assms(3) obtain lg0 its where
    sc: "scan_outcome e cp (sections cp) ([], Map.empty, False) = Inr (lg0, its, \<not> complete e cp)"
    and pc: "parse_config e cfile (ReadOk cp) =
       Inr (lg0 @ fst (check_required its) @ leftover_log (leftover_conf e cp (sections cp)),
            None)"
    by auto
  let ?lg = "lg0 @ fst (check_required its) @ leftover_log (leftover_conf e cp (sections cp))"
  note lg = scan_outcome_log [OF sc coll_ok_empty]
  have 1: "UnknownSection name \<in> set ?lg"
    if "name \<in> set (sections cp)" "get_section_parser name = None" for name
    using lg that by auto
  have 2: "MissingOption (fst fld) name \<in> set ?lg"
    if n: "name \<in> set (sections cp)" and p: "get_section_parser name = Some p"
      and f: "fld \<in> set (schema e (cls p))" "fst (snd fld) = PNone"
        "cp_get cp name (fst fld) = None" for name p fld
  proof -
    obtain msgs v where s: "section_outcome e p name cp = Inr (msgs, v)"
      using section_outcome_coercible [OF assms(2) n p] by auto
    have "set msgs \<subseteq> set lg0" using lg n p s by blast
    with section_outcome_missing [OF s f] show ?thesis by auto
  qed
  have 3: "MissingSection (group k) \<in> set ?lg"
    if "k \<in> set required_sections" "\<not> has_section k (sections cp)" for k
    using check_required_log [OF that(1), of its] scan_outcome_absent [OF sc _ that(2)]
    by simp
  from pc 1 2 3 show ?thesis by blast
qed

text \<open>A file with no default section, an unknown section and a calendar without
  \<open>path\<close>.\<close>

theorem missing_section_fails_witness:
  "distinct (sections no_default_conf) \<and> coercible env_utc no_default_conf \<and>
   \<not> has_section DefaultSection (sections no_default_conf) \<and>
   (\<exists>lg. parse_config env_utc ''khal.conf'' (ReadOk no_default_conf) = Inr (lg, None) \<and>
      UnknownSection ''plugins'' \<in> set lg \<and>
      MissingOption ''path'' ''calendar home'' \<in> set lg \<and>
      MissingSection ''default'' \<in> set lg)"
proof -
  have d: "distinct (sections no_default_conf)"
    and c: "coercible env_utc no_default_conf"
    and h: "\<not> has_section DefaultSection (sections no_default_conf)"
    by code_simp+
  have s: "''plugins'' \<in> set (sections no_default_conf)"
    "''calendar home'' \<in> set (sections no_default_conf)"
    by code_simp+
  have u: "get_section_parser ''plugins'' = None"
    by (simp add: get_section_parser_eq str_lower_def lower_char_def)
  have p: "get_section_parser ''calendar home'' =
             Some \<lparr>cls = CalendarSection, parsed = [''name'' \<mapsto> PStr ''home'']\<rparr>"
    by (simp add: get_section_parser_eq str_lower_def lower_char_def calendar_name_def)
  have g: "cp_get no_default_conf ''calendar home'' ''path'' = None" by code_simp
  have r: "DefaultSection \<in> set required_sections" by (simp add: required_sections_def)
  from missing_section_fails [OF d c, of "''khal.conf''"] h obtain lg where
    1: "parse_config env_utc ''khal.conf'' (ReadOk no_default_conf) = Inr (lg, None)" and
    2: "\<forall>name\<in>set (sections no_default_conf). get_section_parser name = None \<longrightarrow>
        UnknownSection name \<in> set lg" and
    3: "\<forall>name\<in>set (sections no_default_conf). \<forall>p fld. get_section_parser name = Some p \<and>
        fld \<in> set (schema env_utc (cls p)) \<and> fst (snd fld) = PNone \<and>
        cp_get no_default_conf name (fst fld) = None \<longrightarrow> MissingOption (fst fld) name \<in> set lg" and
    4: "\<forall>k\<in>set required_sections. \<not> has_section k (sections no_default_conf) \<longrightarrow>
        MissingSection (group k) \<in> set lg"
    by blast
  have "UnknownSection ''plugins'' \<in> set lg" using 2 s(1) u by blast
  moreover have "MissingOption ''path'' ''calendar home'' \<in> set lg"
    using 3 [rule_format, OF s(2), of _ "(''path'', PNone, ExpandPath)"] p g by simp
  moreover have "MissingSection ''default'' \<in> set lg"
    using 4 r h by force
  ultimately show ?thesis using d c h 1 by blast
qed

text \<open>Against claim C5 as stated: this readable file has no default section, and
  \<open>parse_config\<close> does not return \<open>None\<close>: \<open>int\<close> raises on \<open>firstweekday = monday\<close>.\<close>

theorem bad_weekday_aborts:
  "\<not> has_section DefaultSection (sections bad_weekday_conf) \<and>
   parse_config env_utc ''khal.conf'' (ReadOk bad_weekday_conf) = Inl (ValueError ''monday'')"
proof -
  have h: "\<not> has_section DefaultSection (sections bad_weekday_conf)" by code_simp
  have d: "distinct (sections bad_weekday_conf)" by code_simp
  have s: "sections bad_weekday_conf = [''locale'']" by code_simp
  have g: "get_section_parser ''locale'' = Some (new_section LocaleSection)"
    by (simp add: get_section_parser_eq str_lower_def lower_char_def)
  have v: "cp_get bad_weekday_conf ''locale'' ''local_timezone'' = Some ''UTC''"
    "cp_get bad_weekday_conf ''locale'' ''default_timezone'' = Some ''UTC''"
    "cp_get bad_weekday_conf ''locale'' ''timeformat'' = Some ''%H:%M''"
    "cp_get bad_weekday_conf ''locale'' ''dateformat'' = Some ''%d.%m.''"
    "cp_get bad_weekday_conf ''locale'' ''longdateformat'' = Some ''%d.%m.%Y''"
    "cp_get bad_weekday_conf ''locale'' ''datetimeformat'' = Some ''%d.%m. %H:%M''"
    "cp_get bad_weekday_conf ''locale'' ''longdatetimeformat'' = Some ''%d.%m.%Y %H:%M''"
    "cp_get bad_weekday_conf ''locale'' ''firstweekday'' = Some ''monday''"
    by code_simp+
  have "section_outcome env_utc (new_section LocaleSection) ''locale'' bad_weekday_conf =
          Inl (ValueError ''monday'')"
    by (simp add: section_outcome_def new_section_def field_outcome_def parse_time_zone_def
        env_utc_def v)
  then have "parse_config env_utc ''khal.conf'' (ReadOk bad_weekday_conf) =
     Inl (ValueError ''monday'')"
    using g s by (simp add: parse_config_eq [OF d])
  with h show ?thesis by simp
qed

text \<open>So it is with every file in which a coercion raises: \<open>parse_config\<close> returns
  nothing, neither \<open>None\<close> nor a configuration.\<close>

lemma raising_coercion_returns_nothing:
  assumes "distinct (sections cp)" and "\<not> coercible e cp"
  shows "parse_config e cfile (ReadOk cp) \<noteq> Inr (lg, r)"
  using raising_coercion_aborts [OF assms, of cfile] by auto

section \<open>Unknown sections and options\<close>










text \<open>Both messages are logged through \<open>logger.warning\<close> and \<open>logger.warn\<close>.\<close>

lemma unknown_are_warnings:
  "level_of (UnknownSection name) = WARNING" "level_of (UnknownOption option name) = WARNING"
  by simp_all














section \<open>An invalid default command\<close>

text \<open>\<open>_parse_commands\<close> logs the error and returns \<open>None\<close>; \<open>Section.parse\<close> stores
  that \<open>None\<close> as the value of \<open>default_command\<close> and does not set \<open>failed\<close>.\<close>

lemma default_section_outcome:
  assumes "cp_get cp name ''default_command'' = Some x" and "x \<notin> set commands"
  shows "\<exists>msgs v. section_outcome e (new_section DefaultSection) name cp = Inr (msgs, Some v) \<and>
           v ''default_command'' = Some PNone \<and> InvalidCommand x \<in> set msgs"
  using assms
  by (auto simp: section_outcome_def new_section_def field_outcome_def parse_commands_def
      split: option.splits)

lemma invalid_command_not_rejected:
  assumes "name \<in> set (sections cp)"
    and "cp_get cp name ''default_command'' = Some x" and "x \<notin> set commands"
  shows "\<exists>cp' lg' v. parse e (new_section DefaultSection) name cp lg = Inr (cp', lg', Some v) \<and>
           v ''default_command'' = Some PNone \<and> InvalidCommand x \<in> set lg'"
proof -
  from default_section_outcome [OF assms(2,3), of e] obtain msgs v where
    "section_outcome e (new_section DefaultSection) name cp = Inr (msgs, Some v)"
    "v ''default_command'' = Some PNone" "InvalidCommand x \<in> set msgs"
    by blast
  then show ?thesis using assms(1) by (simp add: parse_eq)
qed

text \<open>
  Claim C3 says that a default section whose \<open>default_command\<close> is outside
  \<open>agenda\<close>, \<open>calendar\<close>, \<open>new\<close>, \<open>interactive\<close>, \<open>printcalendars\<close> fails to parse and
  makes the overall parse fail. The code does not do so: on the file with
  \<open>default_command = foo\<close>, a complete locale section and a calendar, \<open>parse_config\<close>
  logs the error and returns a configuration whose \<open>default.default_command\<close> is \<open>None\<close>.
\<close>

theorem invalid_default_command_accepted:
  "\<exists>lg c d. parse_config env_utc ''khal.conf'' (ReadOk bad_command_conf) = Inr (lg, Some c) \<and>
     c ''default'' = Some (Single d) \<and> d ''default_command'' = Some PNone \<and>
     InvalidCommand ''foo'' \<in> set lg"
proof -
  have d: "distinct (sections bad_command_conf)"
    and co: "coercible env_utc bad_command_conf"
    and cm: "complete env_utc bad_command_conf"
    and h: "has_section DefaultSection (sections bad_command_conf)"
      "has_section LocaleSection (sections bad_command_conf)"
      "has_section CalendarSection (sections bad_command_conf)"
    and ms: "filter (\<lambda>n. section_kind n = Some DefaultSection) (sections bad_command_conf) =
               [''default'']"
    and g: "cp_get bad_command_conf ''default'' ''default_command'' = Some ''foo''"
    and x: "''foo'' \<notin> set commands"
    and s: "''default'' \<in> set (sections bad_command_conf)"
    by code_simp+
  have p: "get_section_parser ''default'' = Some (new_section DefaultSection)"
    by (simp add: get_section_parser_eq str_lower_def lower_char_def)
  from parse_config_result [OF d co, of "''khal.conf''"] cm h obtain lg0 its where
    sc: "scan_outcome env_utc bad_command_conf (sections bad_command_conf)
           ([], Map.empty, False) = Inr (lg0, its, False)" and
    pc: "parse_config env_utc ''khal.conf'' (ReadOk bad_command_conf) =
           Inr (lg0 @ fst (check_required its) @
                leftover_log (leftover_conf env_utc bad_command_conf (sections bad_command_conf)),
                Some its)"
    by auto
  from scan_outcome_single [OF sc coll_ok_empty, of DefaultSection] ms obtain msgs v where
    so: "section_outcome env_utc (new_section DefaultSection) ''default'' bad_command_conf =
           Inr (msgs, Some v)" and
    i: "its ''default'' = Some (Single v)"
    by auto
  from default_section_outcome [OF g x, of env_utc] so
  have v: "v ''default_command'' = Some PNone" and m: "InvalidCommand ''foo'' \<in> set msgs"
    by auto
  have "set msgs \<subseteq> set lg0"
    using scan_outcome_log [OF sc coll_ok_empty] s p so by blast
  with pc i v m show ?thesis by auto
qed

section \<open>From the file to the validated configuration\<close>

text \<open>Every configuration that \<open>parse_config\<close> returns has the shape that
  \<open>validate\<close> reads: the hypotheses of \<open>validate_default_calendar\<close> hold of it.\<close>

lemma parse_config_assembled:
  assumes "distinct (sections cp)" and "parse_config e cfile (ReadOk cp) = Inr (lg, Some c)"
  shows "\<exists>d v cals ns.
           c ''default'' = Some (Single d) \<and> d ''default_calendar'' = Some v \<and>
           (v = PBool True \<or> (\<exists>s. v = PStr s)) \<and>
           c ''calendars'' = Some (Collection cals) \<and> cals \<noteq> [] \<and>
           map (\<lambda>cal. cal ''name'') cals = map Some ns \<and> (\<forall>n\<in>set ns. \<exists>s. n = PStr s)"
proof -
  from assms(2) obtain lg0 where
    sc: "scan_outcome e cp (sections cp) ([], Map.empty, False) = Inr (lg0, c, False)" and
    pr: "c ''default'' \<noteq> None" "c ''calendars'' \<noteq> None"
    by (auto simp: parse_config_eq [OF assms(1)] check_required_missing
        split: sum.splits if_splits)
  let ?cs = "filter (\<lambda>n. section_kind n = Some CalendarSection) (sections cp)"
  let ?ds = "filter (\<lambda>n. section_kind n = Some DefaultSection) (sections cp)"
  let ?ns = "map (\<lambda>n. PStr (calendar_name n)) ?cs"
  have ok: "coll_ok c" using scan_outcome_coll_ok [OF sc] by simp
  have cal: "c ''calendars'' = Some (Collection (coll c))"
    using ok pr(2) by (auto simp: coll_ok_def coll_def split: option.splits item.splits)
  have names: "map (\<lambda>cal. cal ''name'') (coll c) = map Some ?ns"
    using scan_outcome_calendars [OF sc] by (simp add: coll_def comp_def)
  have "has_section CalendarSection (sections cp)"
    using scan_outcome_absent [OF sc, of CalendarSection] pr(2) by auto
  then have "?cs \<noteq> []" by (auto simp: has_section_def filter_empty_conv)
  then have ne: "coll c \<noteq> []" using names by (metis map_is_Nil_conv)
  have "has_section DefaultSection (sections cp)"
    using scan_outcome_absent [OF sc, of DefaultSection] pr(1) by auto
  then have "?ds \<noteq> []" by (auto simp: has_section_def filter_empty_conv)
  from scan_outcome_single [OF sc coll_ok_empty _ _ this] obtain msgs d where
    so: "section_outcome e (new_section DefaultSection) (last ?ds) cp = Inr (msgs, Some d)" and
    dd: "c ''default'' = Some (Single d)"
    by auto
  from so obtain fl where
    f: "fields_outcome e (last ?ds) cp (schema e DefaultSection) ([], Map.empty, False) =
          Inr (msgs, d, fl)"
    by (auto simp: section_outcome_def new_section_def split: sum.splits if_splits)
  from fields_outcome_value [OF f schema_names_distinct,
      of "(''default_calendar'', PBool True, NoFilter)"]
  obtain m v miss where
    fo: "field_outcome e (last ?ds) cp (''default_calendar'', PBool True, NoFilter) =
           Inr (m, v, miss)" and
    dv: "d ''default_calendar'' = Some v"
    by auto
  have "v = PBool True \<or> (\<exists>s. v = PStr s)"
    using fo by (auto simp: field_outcome_def split: option.splits)
  with dd dv cal ne names show ?thesis by (intro exI [of _ d] exI [of _ v] exI [of _ "coll c"] exI [of _ ?ns]) auto
qed

text \<open>The example of the specification through \<open>main_khal\<close>: the default calendar,
  left unset, becomes the first calendar of the file.\<close>

lemma main_khal_load_sample:
  "\<exists>c d. main_khal_load env_utc ''khal.conf'' (ReadOk sample_conf) = Loaded c \<and>
     c ''default'' = Some (Single d) \<and> d ''default_calendar'' = Some (PStr ''home'')"
proof -
  obtain lg c where
    pc: "parse_config env_utc ''khal.conf'' (ReadOk sample_conf) = Inr (lg, Some c)"
    using parse_config_result [OF sample_distinct sample_coercible, of "''khal.conf''"]
      sample_has sample_complete by auto
  from pc obtain lg0 where
    sc: "scan_outcome env_utc sample_conf (sections sample_conf) ([], Map.empty, False) =
           Inr (lg0, c, False)"
    by (auto simp: parse_config_eq [OF sample_distinct] split: sum.splits if_splits)
  have cs: "map (\<lambda>n. Some (PStr (calendar_name n)))
          (filter (\<lambda>n. section_kind n = Some CalendarSection) (sections sample_conf)) =
        [Some (PStr ''home''), Some (PStr ''work'')]"
    by code_simp
  have ds: "filter (\<lambda>n. section_kind n = Some DefaultSection) (sections sample_conf) =
        [''default'', ''Default'']"
    by code_simp
  have ok: "coll_ok c" using scan_outcome_coll_ok [OF sc] by simp
  have names: "map (\<lambda>cal. cal ''name'') (coll c) = [Some (PStr ''home''), Some (PStr ''work'')]"
    using scan_outcome_calendars [OF sc] cs by (simp add: coll_def)
  then obtain cal rest where cl: "coll c = cal # rest" and cn: "cal ''name'' = Some (PStr ''home'')"
    by (cases "coll c") auto
  then have cal: "c ''calendars'' = Some (Collection (cal # rest))"
    by (auto simp: coll_def split: option.splits item.splits)
  from scan_outcome_single [OF sc coll_ok_empty, of DefaultSection] ds obtain msgs d where
    so: "section_outcome env_utc (new_section DefaultSection) ''Default'' sample_conf =
           Inr (msgs, Some d)" and
    dd: "c ''default'' = Some (Single d)"
    by auto
  have g: "cp_get sample_conf ''Default'' ''default_calendar'' = None" by code_simp
  from so obtain fl where
    f: "fields_outcome env_utc ''Default'' sample_conf (schema env_utc DefaultSection)
          ([], Map.empty, False) = Inr (msgs, d, fl)"
    by (auto simp: section_outcome_def new_section_def split: sum.splits if_splits)
  from fields_outcome_value [OF f schema_names_distinct,
      of "(''default_calendar'', PBool True, NoFilter)"] g
  have dv: "d ''default_calendar'' = Some (PBool True)"
    by (auto simp: field_outcome_absent)
  have "validate (Some c) =
      Inr ([], Some (c(''default'' \<mapsto> Single (d(''default_calendar'' \<mapsto> PStr ''home'')))))"
    using dd dv cal cn by (simp add: validate_def)
  then show ?thesis using pc by (simp add: main_khal_load_def)
qed

end
